theory Spec2Isabelle
  imports Complex_Main "HOL-Library.Word" "HOL-Library.Monad_Syntax"
begin

unbundle bit_operations_syntax

section \<open>common.h: configuration\<close>

text \<open>
  \<^verbatim>\<open>size_t\<close> is the 64-bit unsigned type of the LP64 targets the benchmark is built
  for (the table is written with \<^verbatim>\<open>UL\<close> constants), \<^verbatim>\<open>uint8_t\<close> is a byte.
\<close>

type_synonym size_t = "64 word"
type_synonym uint8_t = "8 word"

definition TEST_SIZES :: "size_t list" where
  "TEST_SIZES =
     [4 * 1024,
      64 * 1024,
      1 * 1024 * 1024,
      16 * 1024 * 1024,
      64 * 1024 * 1024,
      256 * 1024 * 1024,
      512 * 1024 * 1024,
      1024 * 1024 * 1024]"

definition NUM_TEST_SIZES :: nat where
  "NUM_TEST_SIZES = length TEST_SIZES"

definition REPEAT_COUNT :: int where
  "REPEAT_COUNT = 5"

section \<open>common.h: pattern generator and verifier\<close>

text \<open>
  A buffer is the list of the bytes of the object the pointer points into. The C loops
  index it with a \<^verbatim>\<open>size_t\<close>; an access at or beyond the end of the object is
  undefined behaviour in C and is the result \<open>None\<close> here.
\<close>

lemma size_t_succ: "(i::size_t) < n \<Longrightarrow> unat (i + 1) = Suc (unat i)"
proof -
  assume "i < n"
  then have "unat i < unat n" by (simp add: word_less_nat_alt)
  moreover have "unat n < 2 ^ 64" using unsigned_less [of n] by simp
  ultimately have "unat i + 1 < 2 ^ 64" by linarith
  then show ?thesis by (simp add: unat_add_lem [THEN iffD1])
qed

function fill_loop :: "size_t \<Rightarrow> size_t \<Rightarrow> uint8_t list \<Rightarrow> uint8_t list option" where
  "fill_loop i n p =
     (if i < n then
        (if unat i < length p
         then fill_loop (i + 1) n (p[unat i := ucast (i AND 0xFF)])
         else None)
      else Some p)"
  by pat_completeness auto
termination
  by (relation "measure (\<lambda>(i, n, p). unat n - unat i)")
     (auto simp: size_t_succ word_less_nat_alt)

declare fill_loop.simps [simp del]

definition fill_pattern :: "uint8_t list \<Rightarrow> size_t \<Rightarrow> uint8_t list option" where
  "fill_pattern buf n = fill_loop 0 n buf"

function verify_loop :: "size_t \<Rightarrow> size_t \<Rightarrow> uint8_t list \<Rightarrow> size_t option" where
  "verify_loop i n p =
     (if i < n then
        (if unat i < length p
         then (if p ! unat i \<noteq> ucast (i AND 0xFF) then Some (i + 1)
               else verify_loop (i + 1) n p)
         else None)
      else Some 0)"
  by pat_completeness auto
termination
  by (relation "measure (\<lambda>(i, n, p). unat n - unat i)")
     (auto simp: size_t_succ word_less_nat_alt)

declare verify_loop.simps [simp del]

definition verify_pattern :: "uint8_t list \<Rightarrow> size_t \<Rightarrow> size_t option" where
  "verify_pattern buf n = verify_loop 0 n buf"

section \<open>Memory operations of the C library\<close>

text \<open>
  \<^verbatim>\<open>memset\<close> and \<^verbatim>\<open>memcpy\<close> on the first \<open>n\<close> bytes of an object; \<open>None\<close> when
  \<open>n\<close> exceeds an object's length (undefined behaviour in C).
\<close>

definition memset_bytes :: "uint8_t list \<Rightarrow> uint8_t \<Rightarrow> size_t \<Rightarrow> uint8_t list option" where
  "memset_bytes s c n =
     (if unat n \<le> length s then Some (replicate (unat n) c @ drop (unat n) s) else None)"

definition memcpy_bytes :: "uint8_t list \<Rightarrow> uint8_t list \<Rightarrow> size_t \<Rightarrow> uint8_t list option" where
  "memcpy_bytes dst src n =
     (if unat n \<le> length dst \<and> unat n \<le> length src
      then Some (take (unat n) src @ drop (unat n) dst) else None)"

section \<open>common.h: reporting\<close>

text \<open>
  The benchmarks are modelled by what they do, in order: the timed operations, the
  calls of the verifier and the report lines. The name strings of the source are
  \<^verbatim>\<open>"xpmem-cpy"\<close>, \<^verbatim>\<open>"xpmem-dir"\<close>, \<^verbatim>\<open>"LOCAL-cpy"\<close> and \<^verbatim>\<open>"SHM-cpy  "\<close>.
  The type \<open>'d\<close> stands for C's \<^verbatim>\<open>double\<close>. A cell of a \<^verbatim>\<open>double times[REPEAT_COUNT]\<close>
  array is \<open>None\<close> until it is first assigned.

  \<^item> \<open>Timed m sz bytes r\<close>: the operation between the two clock readings of repeat \<open>r\<close>
    for table size \<open>sz\<close>, which touches \<open>bytes\<close> bytes of the shared region;
  \<^item> \<open>Result m sz t it\<close>: the call \<^verbatim>\<open>print_result(m, sz, t, it)\<close>;
  \<^item> \<open>VerifyCall sz\<close>: a call \<^verbatim>\<open>verify_pattern(_, sz)\<close>;
  \<^item> \<open>VerifyOK\<close>, \<open>Mismatch off\<close>: the two messages that report a verification result;
  \<^item> \<open>Summary m sz ts c\<close>: the call \<^verbatim>\<open>print_summary(m, sz, ts, c)\<close>;
  \<^item> \<open>AllocFailed\<close>: the diagnostic after a failed \<^verbatim>\<open>alloc_aligned\<close>;
  \<^item> \<open>Fatal e\<close>: the diagnostic that the importer's \<^verbatim>\<open>main\<close> writes to the error stream
    before it returns 1.

  The remaining events are the accesses of \<^verbatim>\<open>shm_bench.c\<close> to its shared control
  record:
  \<^item> \<open>Wr p f\<close>, \<open>Rd p f\<close>: process \<open>p\<close> writes, reads the field \<open>f\<close>;
  \<^item> \<open>Posted sz it\<close>: the parent stores 1 into \<^verbatim>\<open>phase\<close>, the record holding
    \<^verbatim>\<open>data_size = sz\<close> and \<^verbatim>\<open>iteration = it\<close> at that moment;
  \<^item> \<open>Responded\<close>: the child stores 2 into \<^verbatim>\<open>phase\<close>;
  \<^item> \<open>Consumed\<close>: the parent stores 0 into \<^verbatim>\<open>phase\<close>.
\<close>

datatype benchmark = Xpmem_cpy | Xpmem_dir | Local_cpy | Shm_cpy

datatype proc = Parent | Child

datatype setup_error = OpenFailed | BadFormat | GetFailed | AttachFailed | NoMemory

datatype field = DataSize | Iteration | CopyTime | VerifyErr

datatype 'd event =
    Timed benchmark size_t nat int
  | Result benchmark size_t 'd int
  | VerifyCall size_t
  | VerifyOK
  | Mismatch size_t
  | Summary benchmark size_t "'d option list" int
  | AllocFailed
  | Fatal setup_error
  | Wr proc field
  | Rd proc field
  | Posted size_t int
  | Responded
  | Consumed

text \<open>
  The arithmetic of \<^verbatim>\<open>double\<close> is a parameter: comparison, addition, multiplication,
  division and the conversions from \<^verbatim>\<open>int\<close> and \<^verbatim>\<open>size_t\<close>. \<^verbatim>\<open>a > b\<close> is
  \<open>f_less F b a\<close>.
\<close>

record 'd fpu =
  f_less :: "'d \<Rightarrow> 'd \<Rightarrow> bool"
  f_add :: "'d \<Rightarrow> 'd \<Rightarrow> 'd"
  f_mul :: "'d \<Rightarrow> 'd \<Rightarrow> 'd"
  f_div :: "'d \<Rightarrow> 'd \<Rightarrow> 'd"
  f_of_int :: "int \<Rightarrow> 'd"
  f_of_size :: "size_t \<Rightarrow> 'd"

datatype fault = OutOfBounds | DivisionByZero

record 'd summary_line =
  avg_t :: 'd
  avg_bw :: 'd
  min_t :: 'd
  max_t :: 'd

function summary_loop ::
  "'d fpu \<Rightarrow> 'd list \<Rightarrow> int \<Rightarrow> int \<Rightarrow> 'd \<times> 'd \<times> 'd \<Rightarrow> fault + 'd \<times> 'd \<times> 'd" where
  "summary_loop F ts count i (mn, mx, sm) =
     (if i < count then
        (if 0 \<le> i \<and> nat i < length ts then
           (let t = ts ! nat i;
                mn' = (if f_less F t mn then t else mn);
                mx' = (if f_less F mx t then t else mx)
            in summary_loop F ts count (i + 1) (mn', mx', f_add F sm t))
         else Inl OutOfBounds)
      else Inr (mn, mx, sm))"
  by pat_completeness auto
termination
  by (relation "measure (\<lambda>(F, ts, count, i, acc). nat (count - i))") auto

declare summary_loop.simps [simp del]

text \<open>
  \<^verbatim>\<open>print_summary(name, size, times, count)\<close>: the four numbers of the printed line.
  \<^verbatim>\<open>times[0]\<close> is read before the loop. A division by a zero count is reported as a
  fault (the C standard leaves it undefined).
\<close>

definition print_summary :: "'d fpu \<Rightarrow> size_t \<Rightarrow> 'd list \<Rightarrow> int \<Rightarrow> fault + 'd summary_line" where
  "print_summary F sz ts count =
     (if ts = [] then Inl OutOfBounds
      else case summary_loop F ts count 0 (ts ! 0, ts ! 0, f_of_int F 0) of
        Inl e \<Rightarrow> Inl e
      | Inr (mn, mx, sm) \<Rightarrow>
          if count = 0 then Inl DivisionByZero
          else
            (let avg = f_div F sm (f_of_int F count);
                 bw = f_div F (f_div F (f_of_size F sz) avg)
                        (f_mul F (f_mul F (f_of_int F 1024) (f_of_int F 1024)) (f_of_int F 1024))
             in Inr \<lparr>avg_t = avg, avg_bw = bw, min_t = mn, max_t = mx\<rparr>))"

section \<open>The size table driver and the repeat loop\<close>

text \<open>
  Every benchmark of \<^verbatim>\<open>xpmem_importer.c\<close> has the same two loop headers:
  \<^verbatim>\<open>for (size_t si = 0; si < NUM_TEST_SIZES; si++) { size_t size = TEST_SIZES[si];
  if (size > max_size) break; ... }\<close> and \<^verbatim>\<open>for (int r = 0; r < REPEAT_COUNT; r++)\<close>.
  The loop bodies run in the option monad: \<open>None\<close> is an out-of-bounds access.
\<close>

function for_repeats :: "(int \<Rightarrow> 's \<Rightarrow> 's option) \<Rightarrow> int \<Rightarrow> 's \<Rightarrow> 's option" where
  "for_repeats body r st =
     (if r < REPEAT_COUNT then
        (case body r st of None \<Rightarrow> None | Some st' \<Rightarrow> for_repeats body (r + 1) st')
      else Some st)"
  by pat_completeness auto
termination
  by (relation "measure (\<lambda>(body, r, st). nat (REPEAT_COUNT - r))") auto

declare for_repeats.simps [simp del]

function for_sizes ::
  "(nat \<Rightarrow> size_t \<Rightarrow> 's \<Rightarrow> 's option) \<Rightarrow> size_t \<Rightarrow> nat \<Rightarrow> 's \<Rightarrow> 's option" where
  "for_sizes body max_size si st =
     (if si < NUM_TEST_SIZES then
        (let sz = TEST_SIZES ! si in
         if sz > max_size then Some st
         else (case body si sz st of None \<Rightarrow> None
               | Some st' \<Rightarrow> for_sizes body max_size (si + 1) st'))
      else Some st)"
  by pat_completeness auto
termination
  by (relation "measure (\<lambda>(body, max_size, si, st). NUM_TEST_SIZES - si)") auto

declare for_sizes.simps [simp del]

text \<open>
  The state of a benchmark function: its destination buffer, the \<^verbatim>\<open>times\<close> array of
  the current size and what it has done so far.
\<close>

record 'd bench =
  local_buf :: "uint8_t list"
  times :: "'d option list"
  out :: "'d event list"

definition emit :: "'d event list \<Rightarrow> 'd bench \<Rightarrow> 'd bench" where
  "emit es st = st\<lparr>out := out st @ es\<rparr>"

definition store_time :: "int \<Rightarrow> 'd \<Rightarrow> 'd bench \<Rightarrow> 'd bench option" where
  "store_time r t st =
     (if 0 \<le> r \<and> nat r < length (times st)
      then Some (st\<lparr>times := (times st)[nat r := Some t]\<rparr>) else None)"

definition fresh_times :: "'d bench \<Rightarrow> 'd bench" where
  "fresh_times st = st\<lparr>times := replicate (nat REPEAT_COUNT) None\<rparr>"

section \<open>xpmem\_importer.c: the three benchmarks\<close>

text \<open>
  The clock is an input: \<open>el si r\<close> is the difference \<^verbatim>\<open>t1 - t0\<close> of the two readings
  taken on repeat \<open>r\<close> of table index \<open>si\<close>.
\<close>

definition xpmem_memcpy_repeat ::
  "(int \<Rightarrow> 'd) \<Rightarrow> uint8_t list \<Rightarrow> size_t \<Rightarrow> int \<Rightarrow> 'd bench \<Rightarrow> 'd bench option" where
  "xpmem_memcpy_repeat el attached sz r st = do {
     b0 \<leftarrow> memset_bytes (local_buf st) 0 sz;
     b1 \<leftarrow> memcpy_bytes b0 attached sz;
     st1 \<leftarrow> store_time r (el r) (st\<lparr>local_buf := b1\<rparr>);
     let st2 = emit [Timed Xpmem_cpy sz (unat sz) r, Result Xpmem_cpy sz (el r) (r + 1)] st1;
     if r = 0 then do {
       err \<leftarrow> verify_pattern b1 sz;
       Some (emit [VerifyCall sz, if err \<noteq> 0 then Mismatch (err - 1) else VerifyOK] st2)
     } else Some st2
   }"

definition bench_xpmem_memcpy ::
  "(nat \<Rightarrow> int \<Rightarrow> 'd) \<Rightarrow> uint8_t list \<Rightarrow> uint8_t list \<Rightarrow> size_t \<Rightarrow> 'd event list option" where
  "bench_xpmem_memcpy el attached lbuf max_size =
     map_option out
       (for_sizes
          (\<lambda>si sz st. do {
             st1 \<leftarrow> for_repeats (xpmem_memcpy_repeat (el si) attached sz) 0 (fresh_times st);
             Some (emit [Summary Xpmem_cpy sz (times st1) REPEAT_COUNT] st1)
           })
          max_size 0 \<lparr>local_buf = lbuf, times = [], out = []\<rparr>)"

text \<open>
  The direct-access benchmark reads \<open>count = size / sizeof(uint64_t)\<close> 64-bit words
  \<^verbatim>\<open>p[0] .. p[count - 1]\<close> of the attached region (little endian) and adds them up; the
  sum is discarded.
\<close>

definition load64 :: "uint8_t list \<Rightarrow> size_t \<Rightarrow> 64 word option" where
  "load64 p i =
     (if 8 * unat i + 8 \<le> length p
      then Some (word_rcat (rev (take 8 (drop (8 * unat i) p)))) else None)"

function direct_loop :: "size_t \<Rightarrow> size_t \<Rightarrow> uint8_t list \<Rightarrow> 64 word \<Rightarrow> 64 word option" where
  "direct_loop i count p checksum =
     (if i < count then
        (case load64 p i of None \<Rightarrow> None
         | Some w \<Rightarrow> direct_loop (i + 1) count p (checksum + w))
      else Some checksum)"
  by pat_completeness auto
termination
  by (relation "measure (\<lambda>(i, count, p, c). unat count - unat i)")
     (auto simp: size_t_succ word_less_nat_alt)

declare direct_loop.simps [simp del]

definition xpmem_direct_repeat ::
  "(int \<Rightarrow> 'd) \<Rightarrow> uint8_t list \<Rightarrow> size_t \<Rightarrow> int \<Rightarrow> 'd bench \<Rightarrow> 'd bench option" where
  "xpmem_direct_repeat el attached sz r st = do {
     let count = sz div 8;
     checksum \<leftarrow> direct_loop 0 count attached 0;
     st1 \<leftarrow> store_time r (el r) st;
     Some (emit [Timed Xpmem_dir sz (8 * unat count) r, Result Xpmem_dir sz (el r) (r + 1)] st1)
   }"

definition bench_xpmem_direct ::
  "(nat \<Rightarrow> int \<Rightarrow> 'd) \<Rightarrow> uint8_t list \<Rightarrow> size_t \<Rightarrow> 'd event list option" where
  "bench_xpmem_direct el attached max_size =
     map_option out
       (for_sizes
          (\<lambda>si sz st. do {
             st1 \<leftarrow> for_repeats (xpmem_direct_repeat (el si) attached sz) 0 (fresh_times st);
             Some (emit [Summary Xpmem_dir sz (times st1) REPEAT_COUNT] st1)
           })
          max_size 0 \<lparr>local_buf = [], times = [], out = []\<rparr>)"

text \<open>
  The local baseline allocates its own source and destination of \<open>max_size\<close> bytes; the
  two flags say whether the allocations succeed. The destination is \<open>local_buf\<close>.
\<close>

definition local_memcpy_repeat ::
  "(int \<Rightarrow> 'd) \<Rightarrow> uint8_t list \<Rightarrow> size_t \<Rightarrow> int \<Rightarrow> 'd bench \<Rightarrow> 'd bench option" where
  "local_memcpy_repeat el src sz r st = do {
     b0 \<leftarrow> memset_bytes (local_buf st) 0 sz;
     b1 \<leftarrow> memcpy_bytes b0 src sz;
     st1 \<leftarrow> store_time r (el r) (st\<lparr>local_buf := b1\<rparr>);
     Some (emit [Timed Local_cpy sz (unat sz) r, Result Local_cpy sz (el r) (r + 1)] st1)
   }"

definition bench_local_memcpy ::
  "(nat \<Rightarrow> int \<Rightarrow> 'd) \<Rightarrow> bool \<Rightarrow> bool \<Rightarrow> size_t \<Rightarrow> 'd event list option" where
  "bench_local_memcpy el src_ok dst_ok max_size =
     (if \<not> src_ok \<or> \<not> dst_ok then Some [AllocFailed]
      else
        (let src = replicate (unat max_size) 0xAA;
             dst = replicate (unat max_size) 0
         in map_option out
              (for_sizes
                 (\<lambda>si sz st. do {
                    st1 \<leftarrow> for_repeats (local_memcpy_repeat (el si) src sz) 0 (fresh_times st);
                    Some (emit [Summary Local_cpy sz (times st1) REPEAT_COUNT] st1)
                  })
                 max_size 0 \<lparr>local_buf = dst, times = [], out = []\<rparr>)))"

section \<open>xpmem\_importer.c: reading the descriptor, and main\<close>

text \<open>
  \<^verbatim>\<open>fscanf(fp, "%lld\n%zu\n%d", ...)\<close> on the text of the descriptor file. Each of the
  three conversions skips white space, takes an optional sign and needs at least one
  decimal digit; the white space in the format is skipped by the conversion that
  follows it. The result is the number of conversions done, or \<^verbatim>\<open>EOF\<close> (-1) when the
  input ends before the first one; the three values are there only when it is 3.
\<close>

definition isspace :: "char \<Rightarrow> bool" where
  "isspace c \<longleftrightarrow> c \<in> {CHR '' '', CHR 0x09, CHR 0x0A, CHR 0x0B, CHR 0x0C, CHR 0x0D}"

definition isdigit :: "char \<Rightarrow> bool" where
  "isdigit c \<longleftrightarrow> c \<in> set ''0123456789''"

definition decimal :: "string \<Rightarrow> int" where
  "decimal ds = foldl (\<lambda>v c. 10 * v + (int (of_char c) - 48)) 0 ds"

datatype conversion = InputFailure | MatchFailure | Converted int string

definition scan_integer :: "string \<Rightarrow> conversion" where
  "scan_integer s =
     (let s1 = dropWhile isspace s in
      if s1 = [] then InputFailure
      else
        (let neg = (hd s1 = CHR ''-'');
             s2 = (if hd s1 = CHR ''-'' \<or> hd s1 = CHR ''+'' then tl s1 else s1);
             ds = takeWhile isdigit s2
         in if ds = [] then MatchFailure
            else Converted (if neg then - decimal ds else decimal ds) (dropWhile isdigit s2)))"

definition fscanf_descriptor :: "string \<Rightarrow> int \<times> (int \<times> int \<times> int) option" where
  "fscanf_descriptor s =
     (case scan_integer s of
        InputFailure \<Rightarrow> (- 1, None)
      | MatchFailure \<Rightarrow> (0, None)
      | Converted a r1 \<Rightarrow>
          (case scan_integer r1 of
             Converted b r2 \<Rightarrow>
               (case scan_integer r2 of
                  Converted c r3 \<Rightarrow> (3, Some (a, b, c))
                | _ \<Rightarrow> (2, None))
           | _ \<Rightarrow> (1, None)))"

text \<open>
  What \<^verbatim>\<open>main\<close> of the importer finds: the text of the descriptor file (\<open>None\<close> when
  \<^verbatim>\<open>fopen\<close> fails), whether \<^verbatim>\<open>xpmem_get\<close>, \<^verbatim>\<open>xpmem_attach\<close> and the three allocations
  succeed, the bytes of the attached region, the byte that fills fresh memory, and the
  clock of each benchmark. The result is the exit status and what was done; \<open>None\<close> is
  an out-of-bounds access. The size read by \<^verbatim>\<open>%zu\<close> is taken modulo \<open>2^64\<close>.
\<close>

record 'd importer_env =
  descriptor :: "string option"
  get_ok :: bool
  attach_ok :: bool
  attached_mem :: "uint8_t list"
  local_ok :: bool
  src_ok :: bool
  dst_ok :: bool
  fresh_byte :: uint8_t
  el_cpy :: "nat \<Rightarrow> int \<Rightarrow> 'd"
  el_dir :: "nat \<Rightarrow> int \<Rightarrow> 'd"
  el_loc :: "nat \<Rightarrow> int \<Rightarrow> 'd"

definition importer_main :: "'d importer_env \<Rightarrow> (int \<times> 'd event list) option" where
  "importer_main env =
     (case descriptor env of
        None \<Rightarrow> Some (1, [Fatal OpenFailed])
      | Some txt \<Rightarrow>
          (case fscanf_descriptor txt of
             (n, vals) \<Rightarrow>
               if n \<noteq> 3 then Some (1, [Fatal BadFormat])
               else
                 (case vals of
                    None \<Rightarrow> None
                  | Some (segid_ll, msz, exporter_pid) \<Rightarrow>
                      (let max_size = (word_of_int msz :: size_t) in
                       if \<not> get_ok env then Some (1, [Fatal GetFailed])
                       else if \<not> attach_ok env then Some (1, [Fatal AttachFailed])
                       else if \<not> local_ok env then Some (1, [Fatal NoMemory])
                       else do {
                         e1 \<leftarrow> bench_xpmem_memcpy (el_cpy env) (attached_mem env)
                                 (replicate (unat max_size) (fresh_byte env)) max_size;
                         e2 \<leftarrow> bench_xpmem_direct (el_dir env) (attached_mem env) max_size;
                         e3 \<leftarrow> bench_local_memcpy (el_loc env) (src_ok env) (dst_ok env) max_size;
                         Some (0, e1 @ e2 @ e3)
                       }))))"

fun is_row :: "'d event \<Rightarrow> bool" where
  "is_row (Result m sz t it) = True"
| "is_row (Summary m sz ts c) = True"
| "is_row _ = False"

text \<open>Projections of a run: the timed operations, the verifier calls, the summaries.\<close>

fun timed_of :: "'d event \<Rightarrow> (benchmark \<times> size_t \<times> int) list" where
  "timed_of (Timed m sz b r) = [(m, sz, r)]"
| "timed_of _ = []"

definition transfers :: "'d event list \<Rightarrow> (benchmark \<times> size_t \<times> int) list" where
  "transfers evs = concat (map timed_of evs)"

fun touched_of :: "'d event \<Rightarrow> (size_t \<times> nat) list" where
  "touched_of (Timed m sz b r) = [(sz, b)]"
| "touched_of _ = []"

definition touched :: "'d event list \<Rightarrow> (size_t \<times> nat) list" where
  "touched evs = concat (map touched_of evs)"

datatype step_kind = Op size_t int | Check size_t

fun check_of :: "'d event \<Rightarrow> step_kind list" where
  "check_of (Timed m sz b r) = [Op sz r]"
| "check_of (VerifyCall sz) = [Check sz]"
| "check_of _ = []"

definition checks :: "'d event list \<Rightarrow> step_kind list" where
  "checks evs = concat (map check_of evs)"

fun summary_of :: "'d event \<Rightarrow> ('d option list \<times> int) list" where
  "summary_of (Summary m sz ts c) = [(ts, c)]"
| "summary_of _ = []"

definition summaries :: "'d event list \<Rightarrow> ('d option list \<times> int) list" where
  "summaries evs = concat (map summary_of evs)"

section \<open>shm\_bench.c: the two processes after the fork\<close>

text \<open>
  The shared control record, and the two processes as a transition system: one step is
  one access to shared memory together with the local computation that follows it. The
  program counters name the statement that runs next.
\<close>

record 'd shm_control_t =
  phase :: int
  data_size :: size_t
  iteration :: int
  copy_time :: 'd
  verify_err :: size_t

datatype ppc =
    P_size_loop     \<comment> \<open>\<^verbatim>\<open>for (si ...) { size = TEST_SIZES[si]; if (size > max_size) break;\<close>\<close>
  | P_repeat_loop   \<comment> \<open>\<^verbatim>\<open>for (r ...; r < REPEAT_COUNT; ...)\<close>\<close>
  | P_fill          \<comment> \<open>\<^verbatim>\<open>fill_pattern(shm_ptr, size)\<close>\<close>
  | P_set_size      \<comment> \<open>\<^verbatim>\<open>ctrl->data_size = size\<close>\<close>
  | P_set_iter      \<comment> \<open>\<^verbatim>\<open>ctrl->iteration = r\<close>\<close>
  | P_post          \<comment> \<open>\<^verbatim>\<open>ctrl->phase = 1\<close>\<close>
  | P_wait          \<comment> \<open>\<^verbatim>\<open>while (ctrl->phase != 2) usleep(100)\<close>\<close>
  | P_get_time      \<comment> \<open>\<^verbatim>\<open>times[r] = ctrl->copy_time; print_result(...)\<close>\<close>
  | P_get_verify    \<comment> \<open>\<^verbatim>\<open>if (r == 0) { if (ctrl->verify_err) ... else ... }\<close>\<close>
  | P_reset         \<comment> \<open>\<^verbatim>\<open>ctrl->phase = 0\<close>, then \<^verbatim>\<open>r++\<close>\<close>
  | P_summary       \<comment> \<open>\<^verbatim>\<open>print_summary(...)\<close>, then \<^verbatim>\<open>si++\<close>\<close>
  | P_end_size      \<comment> \<open>\<^verbatim>\<open>ctrl->data_size = 0\<close>\<close>
  | P_end_phase     \<comment> \<open>\<^verbatim>\<open>ctrl->phase = 1\<close>\<close>
  | P_join          \<comment> \<open>\<^verbatim>\<open>wait(NULL)\<close>\<close>
  | P_done
  | P_fault         \<comment> \<open>an out-of-bounds access\<close>

datatype 'd cpc =
    C_alloc         \<comment> \<open>\<^verbatim>\<open>local_buf = alloc_aligned(max_size); memset(local_buf, 0, max_size)\<close>\<close>
  | C_wait          \<comment> \<open>\<^verbatim>\<open>while (ctrl->phase != 1) usleep(100)\<close>\<close>
  | C_get_size      \<comment> \<open>\<^verbatim>\<open>size = ctrl->data_size; if (size == 0) break\<close>\<close>
  | C_copy          \<comment> \<open>\<^verbatim>\<open>memset; t0; memcpy(local_buf, shm_ptr, size); t1\<close>\<close>
  | C_set_time 'd   \<comment> \<open>\<^verbatim>\<open>ctrl->copy_time = t1 - t0\<close>\<close>
  | C_verify        \<comment> \<open>\<^verbatim>\<open>ctrl->verify_err = verify_pattern(local_buf, size)\<close>\<close>
  | C_post          \<comment> \<open>\<^verbatim>\<open>ctrl->phase = 2\<close>\<close>
  | C_free          \<comment> \<open>\<^verbatim>\<open>free(local_buf)\<close>\<close>
  | C_exit int      \<comment> \<open>\<^verbatim>\<open>_exit(status)\<close>\<close>
  | C_fault

record 'd shm_state =
  ctrl :: "'d shm_control_t"
  shm :: "uint8_t list"
  p_pc :: ppc
  p_si :: nat
  p_size :: size_t
  p_r :: int
  p_times :: "'d option list"
  c_pc :: "'d cpc"
  c_size :: size_t
  c_buf :: "uint8_t list"
  log :: "'d event list"

definition shm_max_size :: size_t where
  "shm_max_size = TEST_SIZES ! (NUM_TEST_SIZES - 1)"

text \<open>
  The state at the fork: both regions are mapped and zeroed by \<^verbatim>\<open>memset\<close>; \<open>z\<close> is the
  \<^verbatim>\<open>double\<close> whose bytes are all zero.
\<close>

definition shm_init :: "'d \<Rightarrow> 'd shm_state" where
  "shm_init z =
     \<lparr>ctrl = \<lparr>phase = 0, data_size = 0, iteration = 0, copy_time = z, verify_err = 0\<rparr>,
      shm = replicate (unat shm_max_size) 0,
      p_pc = P_size_loop, p_si = 0, p_size = 0, p_r = 0, p_times = [],
      c_pc = C_alloc, c_size = 0, c_buf = [],
      log = []\<rparr>"

definition logged :: "'d event list \<Rightarrow> 'd shm_state \<Rightarrow> 'd shm_state" where
  "logged es s = s\<lparr>log := log s @ es\<rparr>"

definition is_exit :: "'d cpc \<Rightarrow> bool" where
  "is_exit pc = (case pc of C_exit n \<Rightarrow> True | _ \<Rightarrow> False)"

definition parent_step :: "'d shm_state \<Rightarrow> 'd shm_state" where
  "parent_step s =
     (case p_pc s of
        P_size_loop \<Rightarrow>
          if p_si s < NUM_TEST_SIZES then
            (let sz = TEST_SIZES ! p_si s in
             if sz > shm_max_size then s\<lparr>p_pc := P_end_size\<rparr>
             else s\<lparr>p_pc := P_repeat_loop, p_size := sz, p_r := 0,
                     p_times := replicate (nat REPEAT_COUNT) None\<rparr>)
          else s\<lparr>p_pc := P_end_size\<rparr>
      | P_repeat_loop \<Rightarrow>
          if p_r s < REPEAT_COUNT then s\<lparr>p_pc := P_fill\<rparr> else s\<lparr>p_pc := P_summary\<rparr>
      | P_fill \<Rightarrow>
          (case fill_pattern (shm s) (p_size s) of
             None \<Rightarrow> s\<lparr>p_pc := P_fault\<rparr>
           | Some m \<Rightarrow> s\<lparr>p_pc := P_set_size, shm := m\<rparr>)
      | P_set_size \<Rightarrow>
          logged [Wr Parent DataSize]
            (s\<lparr>p_pc := P_set_iter, ctrl := (ctrl s)\<lparr>data_size := p_size s\<rparr>\<rparr>)
      | P_set_iter \<Rightarrow>
          logged [Wr Parent Iteration]
            (s\<lparr>p_pc := P_post, ctrl := (ctrl s)\<lparr>iteration := p_r s\<rparr>\<rparr>)
      | P_post \<Rightarrow>
          logged [Posted (data_size (ctrl s)) (iteration (ctrl s))]
            (s\<lparr>p_pc := P_wait, ctrl := (ctrl s)\<lparr>phase := 1\<rparr>\<rparr>)
      | P_wait \<Rightarrow>
          if phase (ctrl s) \<noteq> 2 then s else s\<lparr>p_pc := P_get_time\<rparr>
      | P_get_time \<Rightarrow>
          if 0 \<le> p_r s \<and> nat (p_r s) < length (p_times s) then
            logged [Rd Parent CopyTime,
                    Result Shm_cpy (p_size s) (copy_time (ctrl s)) (p_r s + 1)]
              (s\<lparr>p_pc := P_get_verify,
                  p_times := (p_times s)[nat (p_r s) := Some (copy_time (ctrl s))]\<rparr>)
          else s\<lparr>p_pc := P_fault\<rparr>
      | P_get_verify \<Rightarrow>
          if p_r s = 0 then
            logged [Rd Parent VerifyErr,
                    if verify_err (ctrl s) \<noteq> 0 then Mismatch (verify_err (ctrl s) - 1)
                    else VerifyOK]
              (s\<lparr>p_pc := P_reset\<rparr>)
          else s\<lparr>p_pc := P_reset\<rparr>
      | P_reset \<Rightarrow>
          logged [Consumed]
            (s\<lparr>p_pc := P_repeat_loop, p_r := p_r s + 1, ctrl := (ctrl s)\<lparr>phase := 0\<rparr>\<rparr>)
      | P_summary \<Rightarrow>
          logged [Summary Shm_cpy (p_size s) (p_times s) REPEAT_COUNT]
            (s\<lparr>p_pc := P_size_loop, p_si := p_si s + 1\<rparr>)
      | P_end_size \<Rightarrow>
          logged [Wr Parent DataSize]
            (s\<lparr>p_pc := P_end_phase, ctrl := (ctrl s)\<lparr>data_size := 0\<rparr>\<rparr>)
      | P_end_phase \<Rightarrow>
          logged [Posted (data_size (ctrl s)) (iteration (ctrl s))]
            (s\<lparr>p_pc := P_join, ctrl := (ctrl s)\<lparr>phase := 1\<rparr>\<rparr>)
      | P_join \<Rightarrow> if is_exit (c_pc s) then s\<lparr>p_pc := P_done\<rparr> else s
      | P_done \<Rightarrow> s
      | P_fault \<Rightarrow> s)"

text \<open>
  A step of the child takes what the environment decides at that step: \<open>Some t\<close> with
  the difference \<open>t\<close> of the next two clock readings, or \<open>None\<close> when the allocation
  of the local buffer fails. The repeat index in the \<open>Timed\<close> entry is copied from the
  control record for the record only: the child never reads \<^verbatim>\<open>iteration\<close>.
\<close>

definition child_step :: "'d option \<Rightarrow> 'd shm_state \<Rightarrow> 'd shm_state" where
  "child_step env s =
     (case c_pc s of
        C_alloc \<Rightarrow>
          (case env of
             None \<Rightarrow> s\<lparr>c_pc := C_exit 1\<rparr>
           | Some t \<Rightarrow> s\<lparr>c_pc := C_wait, c_buf := replicate (unat shm_max_size) 0\<rparr>)
      | C_wait \<Rightarrow>
          if phase (ctrl s) \<noteq> 1 then s else s\<lparr>c_pc := C_get_size\<rparr>
      | C_get_size \<Rightarrow>
          logged [Rd Child DataSize]
            (s\<lparr>c_size := data_size (ctrl s),
                c_pc := (if data_size (ctrl s) = 0 then C_free else C_copy)\<rparr>)
      | C_copy \<Rightarrow>
          (case env of
             None \<Rightarrow> s
           | Some t \<Rightarrow>
               (case do { b0 \<leftarrow> memset_bytes (c_buf s) 0 (c_size s);
                          memcpy_bytes b0 (shm s) (c_size s) } of
                  None \<Rightarrow> s\<lparr>c_pc := C_fault\<rparr>
                | Some b1 \<Rightarrow>
                    logged [Timed Shm_cpy (c_size s) (unat (c_size s)) (iteration (ctrl s))]
                      (s\<lparr>c_pc := C_set_time t, c_buf := b1\<rparr>)))
      | C_set_time t \<Rightarrow>
          logged [Wr Child CopyTime]
            (s\<lparr>c_pc := C_verify, ctrl := (ctrl s)\<lparr>copy_time := t\<rparr>\<rparr>)
      | C_verify \<Rightarrow>
          (case verify_pattern (c_buf s) (c_size s) of
             None \<Rightarrow> s\<lparr>c_pc := C_fault\<rparr>
           | Some err \<Rightarrow>
               logged [VerifyCall (c_size s), Wr Child VerifyErr]
                 (s\<lparr>c_pc := C_post, ctrl := (ctrl s)\<lparr>verify_err := err\<rparr>\<rparr>))
      | C_post \<Rightarrow>
          logged [Responded] (s\<lparr>c_pc := C_wait, ctrl := (ctrl s)\<lparr>phase := 2\<rparr>\<rparr>)
      | C_free \<Rightarrow> s\<lparr>c_pc := C_exit 0\<rparr>
      | C_exit n \<Rightarrow> s
      | C_fault \<Rightarrow> s)"

datatype 'd label = Par | Chi "'d option"

definition shm_step :: "'d label \<Rightarrow> 'd shm_state \<Rightarrow> 'd shm_state" where
  "shm_step l s = (case l of Par \<Rightarrow> parent_step s | Chi env \<Rightarrow> child_step env s)"

inductive reachable :: "'d \<Rightarrow> 'd shm_state \<Rightarrow> bool" for z :: 'd where
  init: "reachable z (shm_init z)"
| step: "reachable z s \<Longrightarrow> reachable z (shm_step l s)"

definition run :: "'d label list \<Rightarrow> 'd shm_state \<Rightarrow> 'd shm_state" where
  "run ls s = foldl (\<lambda>s l. shm_step l s) s ls"

text \<open>The entries of the log since the last store to \<^verbatim>\<open>phase\<close>.\<close>

fun is_phase_write :: "'d event \<Rightarrow> bool" where
  "is_phase_write (Posted sz it) = True"
| "is_phase_write Responded = True"
| "is_phase_write Consumed = True"
| "is_phase_write _ = False"

definition recent :: "'d event list \<Rightarrow> 'd event list" where
  "recent es = rev (takeWhile (\<lambda>e. \<not> is_phase_write e) (rev es))"

fun post_of :: "'d event \<Rightarrow> (size_t \<times> int) list" where
  "post_of (Posted sz it) = [(sz, it)]"
| "post_of _ = []"

definition posts :: "'d event list \<Rightarrow> (size_t \<times> int) list" where
  "posts evs = concat (map post_of evs)"

section \<open>Expected behaviour and proof invariants\<close>

definition run_sizes :: "size_t \<Rightarrow> size_t list" where
  "run_sizes max_size = takeWhile (\<lambda>s. s \<le> max_size) TEST_SIZES"

definition exp_transfers :: "benchmark \<Rightarrow> size_t list \<Rightarrow> (benchmark \<times> size_t \<times> int) list" where
  "exp_transfers m szs = concat (map (\<lambda>s. map (\<lambda>r. (m, s, r)) [0, 1, 2, 3, 4]) szs)"

definition exp_checks :: "bool \<Rightarrow> size_t list \<Rightarrow> step_kind list" where
  "exp_checks vf szs =
     concat (map (\<lambda>s. if vf then [Op s 0, Check s, Op s 1, Op s 2, Op s 3, Op s 4]
                       else [Op s 0, Op s 1, Op s 2, Op s 3, Op s 4]) szs)"

definition exp_touched :: "(size_t \<Rightarrow> nat) \<Rightarrow> size_t list \<Rightarrow> (size_t \<times> nat) list" where
  "exp_touched bytes szs = concat (map (\<lambda>s. replicate 5 (s, bytes s)) szs)"

definition repeat_spec ::
  "benchmark \<Rightarrow> bool \<Rightarrow> nat \<Rightarrow> size_t \<Rightarrow> nat \<Rightarrow> (int \<Rightarrow> 'd bench \<Rightarrow> 'd bench option) \<Rightarrow> bool" where
  "repeat_spec m vf L sz b rep \<longleftrightarrow>
     (\<forall>r st. 0 \<le> r \<and> r < REPEAT_COUNT \<and> length (local_buf st) = L \<and>
             length (times st) = nat REPEAT_COUNT \<longrightarrow>
        (\<exists>st' d t. rep r st = Some st' \<and> length (local_buf st') = L \<and>
            times st' = (times st)[nat r := Some t] \<and> out st' = out st @ d \<and>
            transfers d = [(m, sz, r)] \<and> touched d = [(sz, b)] \<and>
            checks d = (if vf \<and> r = 0 then [Op sz r, Check sz] else [Op sz r]) \<and>
            summaries d = []))"

definition repeats_inv ::
  "benchmark \<Rightarrow> bool \<Rightarrow> nat \<Rightarrow> size_t \<Rightarrow> nat \<Rightarrow> 'd event list \<Rightarrow> int \<Rightarrow> 'd bench \<Rightarrow> bool" where
  "repeats_inv m vf L sz b out0 r st \<longleftrightarrow>
     length (local_buf st) = L \<and> length (times st) = nat REPEAT_COUNT \<and>
     (\<forall>i<nat r. times st ! i \<noteq> None) \<and>
     (\<exists>d. out st = out0 @ d \<and>
          transfers d = map (\<lambda>r. (m, sz, r)) [0..r - 1] \<and>
          touched d = replicate (nat r) (sz, b) \<and>
          checks d = (if vf \<and> 0 < r then Op sz 0 # Check sz # map (Op sz) [1..r - 1]
                      else map (Op sz) [0..r - 1]) \<and>
          summaries d = [])"

definition sizes_inv ::
  "benchmark \<Rightarrow> bool \<Rightarrow> nat \<Rightarrow> (size_t \<Rightarrow> nat) \<Rightarrow> nat \<Rightarrow> 'd bench \<Rightarrow> bool" where
  "sizes_inv m vf L bytes k st \<longleftrightarrow>
     length (local_buf st) = L \<and>
     transfers (out st) = exp_transfers m (take k TEST_SIZES) \<and>
     touched (out st) = exp_touched bytes (take k TEST_SIZES) \<and>
     checks (out st) = exp_checks vf (take k TEST_SIZES) \<and>
     length (summaries (out st)) = k \<and>
     (\<forall>p \<in> set (summaries (out st)). snd p = REPEAT_COUNT \<and> length (fst p) = 5 \<and> None \<notin> set (fst p))"

definition run_ok :: "benchmark \<Rightarrow> bool \<Rightarrow> (size_t \<Rightarrow> nat) \<Rightarrow> size_t \<Rightarrow> 'd event list \<Rightarrow> bool" where
  "run_ok m vf bytes max_size evs \<longleftrightarrow>
     transfers evs = exp_transfers m (run_sizes max_size) \<and>
     touched evs = exp_touched bytes (run_sizes max_size) \<and>
     checks evs = exp_checks vf (run_sizes max_size) \<and>
     length (summaries evs) = length (run_sizes max_size) \<and>
     list_all (\<lambda>p. snd p = REPEAT_COUNT \<and> length (fst p) = 5 \<and> None \<notin> set (fst p)) (summaries evs)"

definition child_idle :: "'d cpc \<Rightarrow> bool" where
  "child_idle pc \<longleftrightarrow> pc = C_alloc \<or> pc = C_wait \<or> pc = C_exit 1"

definition recently :: "'d event \<Rightarrow> 'd shm_state \<Rightarrow> bool" where
  "recently e s \<longleftrightarrow> e \<in> set (recent (log s))"

definition in_loop :: "'d shm_state \<Rightarrow> bool" where
  "in_loop s \<longleftrightarrow>
     p_si s < NUM_TEST_SIZES \<and> TEST_SIZES ! p_si s = p_size s \<and> p_size s \<le> shm_max_size \<and>
     p_size s \<noteq> 0 \<and> length (p_times s) = 5 \<and> 0 \<le> p_r s \<and> p_r s \<le> 5"

definition parent_ok :: "'d shm_state \<Rightarrow> bool" where
  "parent_ok s \<longleftrightarrow>
     (case p_pc s of
        P_size_loop \<Rightarrow> phase (ctrl s) = 0 \<and> \<not> recently (Wr Parent Iteration) s
      | P_repeat_loop \<Rightarrow> phase (ctrl s) = 0 \<and> in_loop s \<and> \<not> recently (Wr Parent Iteration) s
      | P_fill \<Rightarrow> phase (ctrl s) = 0 \<and> in_loop s \<and> p_r s < 5 \<and>
          \<not> recently (Wr Parent Iteration) s
      | P_set_size \<Rightarrow> phase (ctrl s) = 0 \<and> in_loop s \<and> p_r s < 5 \<and>
          \<not> recently (Wr Parent Iteration) s
      | P_set_iter \<Rightarrow> phase (ctrl s) = 0 \<and> in_loop s \<and> p_r s < 5 \<and>
          data_size (ctrl s) = p_size s \<and> recently (Wr Parent DataSize) s
      | P_post \<Rightarrow> phase (ctrl s) = 0 \<and> in_loop s \<and> p_r s < 5 \<and>
          data_size (ctrl s) = p_size s \<and> iteration (ctrl s) = p_r s \<and>
          recently (Wr Parent DataSize) s \<and> recently (Wr Parent Iteration) s
      | P_wait \<Rightarrow> (phase (ctrl s) = 1 \<or> phase (ctrl s) = 2) \<and> in_loop s \<and> p_r s < 5 \<and>
          data_size (ctrl s) = p_size s \<and> iteration (ctrl s) = p_r s \<and>
          \<not> recently (Rd Parent VerifyErr) s \<and> \<not> recently (Rd Parent CopyTime) s
      | P_get_time \<Rightarrow> phase (ctrl s) = 2 \<and> in_loop s \<and> p_r s < 5 \<and>
          \<not> recently (Rd Parent VerifyErr) s
      | P_get_verify \<Rightarrow> phase (ctrl s) = 2 \<and> in_loop s \<and> p_r s < 5 \<and>
          recently (Rd Parent CopyTime) s \<and> \<not> recently (Rd Parent VerifyErr) s
      | P_reset \<Rightarrow> phase (ctrl s) = 2 \<and> in_loop s \<and> p_r s < 5 \<and>
          recently (Rd Parent CopyTime) s \<and> (recently (Rd Parent VerifyErr) s \<longleftrightarrow> p_r s = 0)
      | P_summary \<Rightarrow> phase (ctrl s) = 0 \<and> in_loop s \<and> \<not> recently (Wr Parent Iteration) s
      | P_end_size \<Rightarrow> phase (ctrl s) = 0 \<and> \<not> recently (Wr Parent Iteration) s
      | P_end_phase \<Rightarrow> phase (ctrl s) = 0 \<and> data_size (ctrl s) = 0 \<and>
          recently (Wr Parent DataSize) s \<and> \<not> recently (Wr Parent Iteration) s
      | P_join \<Rightarrow> phase (ctrl s) = 1 \<and> data_size (ctrl s) = 0
      | P_done \<Rightarrow> phase (ctrl s) = 1 \<and> data_size (ctrl s) = 0 \<and> is_exit (c_pc s)
      | P_fault \<Rightarrow> False)"

definition child_ok :: "'d shm_state \<Rightarrow> bool" where
  "child_ok s \<longleftrightarrow>
     (case c_pc s of
        C_alloc \<Rightarrow> True
      | C_wait \<Rightarrow> length (c_buf s) = unat shm_max_size
      | C_get_size \<Rightarrow> length (c_buf s) = unat shm_max_size \<and> phase (ctrl s) = 1 \<and>
          (p_pc s = P_wait \<or> p_pc s = P_join)
      | C_copy \<Rightarrow> length (c_buf s) = unat shm_max_size \<and> phase (ctrl s) = 1 \<and>
          p_pc s = P_wait \<and> c_size s = data_size (ctrl s)
      | C_set_time t \<Rightarrow> length (c_buf s) = unat shm_max_size \<and> phase (ctrl s) = 1 \<and>
          p_pc s = P_wait \<and> c_size s = data_size (ctrl s)
      | C_verify \<Rightarrow> length (c_buf s) = unat shm_max_size \<and> phase (ctrl s) = 1 \<and>
          p_pc s = P_wait \<and> c_size s = data_size (ctrl s) \<and> recently (Wr Child CopyTime) s
      | C_post \<Rightarrow> length (c_buf s) = unat shm_max_size \<and> phase (ctrl s) = 1 \<and>
          p_pc s = P_wait \<and> c_size s = data_size (ctrl s) \<and>
          recently (Wr Child CopyTime) s \<and> recently (Wr Child VerifyErr) s
      | C_free \<Rightarrow> phase (ctrl s) = 1 \<and> p_pc s = P_join
      | C_exit n \<Rightarrow> n = 1 \<or> (n = 0 \<and> phase (ctrl s) = 1 \<and> (p_pc s = P_join \<or> p_pc s = P_done))
      | C_fault \<Rightarrow> False)"

definition shm_inv :: "'d shm_state \<Rightarrow> bool" where
  "shm_inv s \<longleftrightarrow>
     length (shm s) = unat shm_max_size \<and> parent_ok s \<and> child_ok s \<and>
     (phase (ctrl s) = 0 \<longrightarrow> child_idle (c_pc s)) \<and>
     (phase (ctrl s) = 2 \<longrightarrow> c_pc s = C_wait)"

definition exp_posts :: "size_t list \<Rightarrow> (size_t \<times> int) list" where
  "exp_posts szs = concat (map (\<lambda>s. map (Pair s) [0, 1, 2, 3, 4]) szs)"

definition posted_so_far :: "'d shm_state \<Rightarrow> (size_t \<times> int) list" where
  "posted_so_far s =
     (let before = exp_posts (take (p_si s) TEST_SIZES);
          cur = map (Pair (p_size s)) [0..p_r s - 1];
          cur' = map (Pair (p_size s)) [0..p_r s]
      in case p_pc s of
           P_size_loop \<Rightarrow> before
         | P_repeat_loop \<Rightarrow> before @ cur
         | P_fill \<Rightarrow> before @ cur
         | P_set_size \<Rightarrow> before @ cur
         | P_set_iter \<Rightarrow> before @ cur
         | P_post \<Rightarrow> before @ cur
         | P_wait \<Rightarrow> before @ cur'
         | P_get_time \<Rightarrow> before @ cur'
         | P_get_verify \<Rightarrow> before @ cur'
         | P_reset \<Rightarrow> before @ cur'
         | P_summary \<Rightarrow> exp_posts (take (Suc (p_si s)) TEST_SIZES)
         | P_end_size \<Rightarrow> exp_posts TEST_SIZES
         | P_end_phase \<Rightarrow> exp_posts TEST_SIZES
         | P_join \<Rightarrow> exp_posts TEST_SIZES @ [(0, iteration (ctrl s))]
         | P_done \<Rightarrow> exp_posts TEST_SIZES @ [(0, iteration (ctrl s))]
         | P_fault \<Rightarrow> [])"

definition filled_upto :: "'d shm_state \<Rightarrow> nat" where
  "filled_upto s =
     (if p_pc s = P_get_verify \<or> p_pc s = P_reset then nat (p_r s + 1) else nat (p_r s))"

definition good_summary :: "'d option list \<times> int \<Rightarrow> bool" where
  "good_summary p \<longleftrightarrow> snd p = REPEAT_COUNT \<and> length (fst p) = 5 \<and> None \<notin> set (fst p)"

definition trace_inv :: "'d shm_state \<Rightarrow> bool" where
  "trace_inv s \<longleftrightarrow>
     posts (log s) = posted_so_far s \<and>
     list_all good_summary (summaries (log s)) \<and>
     length (summaries (log s)) = p_si s \<and>
     (\<forall>i<filled_upto s. p_times s ! i \<noteq> None) \<and>
     (p_pc s = P_summary \<longrightarrow> p_r s = 5)"

type_synonym 'd view = "ppc \<times> 'd cpc \<times> nat \<times> int \<times> int \<times> bool"

definition view :: "'d shm_state \<Rightarrow> 'd view" where
  "view s = (p_pc s, c_pc s, p_si s, p_r s, phase (ctrl s), data_size (ctrl s) = 0)"

fun par_view :: "'d view \<Rightarrow> 'd view" where
  "par_view (pp, cp, si, r, ph, z) =
     (case pp of
        P_size_loop \<Rightarrow>
          if si < NUM_TEST_SIZES then (P_repeat_loop, cp, si, 0, ph, z)
          else (P_end_size, cp, si, r, ph, z)
      | P_repeat_loop \<Rightarrow>
          if r < REPEAT_COUNT then (P_fill, cp, si, r, ph, z) else (P_summary, cp, si, r, ph, z)
      | P_fill \<Rightarrow> (P_set_size, cp, si, r, ph, z)
      | P_set_size \<Rightarrow> (P_set_iter, cp, si, r, ph, False)
      | P_set_iter \<Rightarrow> (P_post, cp, si, r, ph, z)
      | P_post \<Rightarrow> (P_wait, cp, si, r, 1, z)
      | P_wait \<Rightarrow> if ph \<noteq> 2 then (pp, cp, si, r, ph, z) else (P_get_time, cp, si, r, ph, z)
      | P_get_time \<Rightarrow> (P_get_verify, cp, si, r, ph, z)
      | P_get_verify \<Rightarrow> (P_reset, cp, si, r, ph, z)
      | P_reset \<Rightarrow> (P_repeat_loop, cp, si, r + 1, 0, z)
      | P_summary \<Rightarrow> (P_size_loop, cp, si + 1, r, ph, z)
      | P_end_size \<Rightarrow> (P_end_phase, cp, si, r, ph, True)
      | P_end_phase \<Rightarrow> (P_join, cp, si, r, 1, z)
      | P_join \<Rightarrow> if is_exit cp then (P_done, cp, si, r, ph, z) else (pp, cp, si, r, ph, z)
      | P_done \<Rightarrow> (pp, cp, si, r, ph, z)
      | P_fault \<Rightarrow> (pp, cp, si, r, ph, z))"

fun chi_view :: "'d option \<Rightarrow> 'd view \<Rightarrow> 'd view" where
  "chi_view env (pp, cp, si, r, ph, z) =
     (case cp of
        C_alloc \<Rightarrow> (case env of None \<Rightarrow> (pp, C_exit 1, si, r, ph, z)
                    | Some t \<Rightarrow> (pp, C_wait, si, r, ph, z))
      | C_wait \<Rightarrow> if ph \<noteq> 1 then (pp, cp, si, r, ph, z) else (pp, C_get_size, si, r, ph, z)
      | C_get_size \<Rightarrow> (pp, if z then C_free else C_copy, si, r, ph, z)
      | C_copy \<Rightarrow> (case env of None \<Rightarrow> (pp, cp, si, r, ph, z)
                   | Some t \<Rightarrow> (pp, C_set_time t, si, r, ph, z))
      | C_set_time t \<Rightarrow> (pp, C_verify, si, r, ph, z)
      | C_verify \<Rightarrow> (pp, C_post, si, r, ph, z)
      | C_post \<Rightarrow> (pp, C_wait, si, r, 2, z)
      | C_free \<Rightarrow> (pp, C_exit 0, si, r, ph, z)
      | C_exit n \<Rightarrow> (pp, cp, si, r, ph, z)
      | C_fault \<Rightarrow> (pp, cp, si, r, ph, z))"

definition view_step :: "'d label \<Rightarrow> 'd view \<Rightarrow> 'd view" where
  "view_step l v = (case l of Par \<Rightarrow> par_view v | Chi env \<Rightarrow> chi_view env v)"

definition cycle_sched :: "'d \<Rightarrow> 'd label list" where
  "cycle_sched t = replicate 5 Par @ replicate 6 (Chi (Some t)) @ replicate 4 Par"

definition size_sched :: "'d \<Rightarrow> 'd label list" where
  "size_sched t = [Par] @ concat (replicate 5 (cycle_sched t)) @ [Par, Par]"

definition sizes_sched :: "'d \<Rightarrow> 'd label list" where
  "sizes_sched t = [Chi (Some t)] @ concat (replicate 8 (size_sched t)) @ [Par]"

definition full_sched :: "'d \<Rightarrow> 'd label list" where
  "full_sched t = sizes_sched t @ [Par, Par, Chi (Some t), Chi (Some t), Chi (Some t), Par]"

definition phase_change_as_claimed :: "'d label \<Rightarrow> 'd shm_state \<Rightarrow> bool" where
  "phase_change_as_claimed l s \<longleftrightarrow>
     (let a = phase (ctrl s); b = phase (ctrl (shm_step l s)) in
      a = b \<or>
      (l = Par \<and> a = 0 \<and> b = 1 \<and>
         recently (Wr Parent DataSize) s \<and> recently (Wr Parent Iteration) s) \<or>
      (l \<noteq> Par \<and> a = 1 \<and> b = 2 \<and>
         recently (Wr Child CopyTime) s \<and> recently (Wr Child VerifyErr) s) \<or>
      (l = Par \<and> a = 2 \<and> b = 0 \<and>
         recently (Rd Parent CopyTime) s \<and> recently (Rd Parent VerifyErr) s))"

definition phase_change_by_design :: "'d label \<Rightarrow> 'd shm_state \<Rightarrow> bool" where
  "phase_change_by_design l s \<longleftrightarrow>
     (let a = phase (ctrl s); b = phase (ctrl (shm_step l s)) in
      a = b \<or>
      (l = Par \<and> a = 0 \<and> b = 1 \<and>
         recently (Wr Parent DataSize) s \<and>
         recently (Wr Parent Iteration) s = (data_size (ctrl s) \<noteq> 0)) \<or>
      (l \<noteq> Par \<and> a = 1 \<and> b = 2 \<and>
         recently (Wr Child CopyTime) s \<and> recently (Wr Child VerifyErr) s) \<or>
      (l = Par \<and> a = 2 \<and> b = 0 \<and>
         recently (Rd Parent CopyTime) s \<and> recently (Rd Parent VerifyErr) s = (p_r s = 0)))"

definition c1_sched :: "'d \<Rightarrow> 'd label list" where
  "c1_sched t = [Chi (Some t)] @ [Par] @ cycle_sched t @
                replicate 5 Par @ replicate 6 (Chi (Some t)) @ replicate 3 Par"

fun chk_step :: "size_t option option \<Rightarrow> step_kind \<Rightarrow> size_t option option" where
  "chk_step (Some None) (Op sz r) = Some (Some sz)"
| "chk_step (Some (Some sz)) (Check sz') = (if sz = sz' then Some None else None)"
| "chk_step _ _ = None"

definition copy_state :: "step_kind list \<Rightarrow> size_t option option" where
  "copy_state xs = foldl chk_step (Some None) xs"




definition child_rank :: "'d cpc \<Rightarrow> nat" where
  "child_rank pc =
     (case pc of C_alloc \<Rightarrow> 4 | C_wait \<Rightarrow> 3 | C_get_size \<Rightarrow> 2 | C_free \<Rightarrow> 1 | _ \<Rightarrow> 0)"

fun is_chi :: "'d label \<Rightarrow> bool" where
  "is_chi (Chi env) = True"
| "is_chi Par = False"

definition joining :: "'d shm_state \<Rightarrow> bool" where
  "joining s \<longleftrightarrow> p_pc s = P_join \<or> p_pc s = P_done"




text \<open>Arithmetic without rounding, on the rationals.\<close>

definition exact_fpu :: "rat fpu" where
  "exact_fpu =
     \<lparr>f_less = (<), f_add = (+), f_mul = (*), f_div = (/), f_of_int = of_int,
      f_of_size = (\<lambda>s. of_nat (unat s))\<rparr>"

subsection \<open>The pattern byte\<close>

lemma mask8: "(0xFF :: size_t) = mask 8"
  by (simp add: mask_eq_exp_minus_1)

lemma ucast_and_FF: "(ucast ((i::size_t) AND 0xFF) :: uint8_t) = ucast i"
  unfolding mask8
  by (rule bit_word_eqI) (auto simp: bit_simps)

lemma pattern_byte: "(ucast ((i::size_t) AND 0xFF) :: uint8_t) = of_nat (unat i)"
  by (simp add: ucast_and_FF)

lemma byte_eq_iff: "(x :: uint8_t) = of_nat j \<longleftrightarrow> unat x = j mod 256"
proof
  assume "x = of_nat j"
  then show "unat x = j mod 256" by (simp add: unat_of_nat)
next
  assume h: "unat x = j mod 256"
  have "x = of_nat (unat x)" by simp
  also have "\<dots> = of_nat (j mod 256)" using h by simp
  also have "\<dots> = (of_nat j :: uint8_t)"
    by (rule word_unat_eq_iff [THEN iffD2]) (simp add: unat_of_nat)
  finally show "x = of_nat j" .
qed

subsection \<open>What the two loops compute\<close>

lemma fill_loop_spec:
  "unat n \<le> length p \<Longrightarrow>
   \<exists>p'. fill_loop i n p = Some p' \<and> length p' = length p \<and>
        (\<forall>j<length p. p' ! j = (if unat i \<le> j \<and> j < unat n then of_nat j else p ! j))"
proof (induction i n p rule: fill_loop.induct)
  case (1 i n p)
  show ?case
  proof (cases "i < n")
    case False
    then have "unat n \<le> unat i" by (simp add: word_less_nat_alt)
    moreover have "fill_loop i n p = Some p"
      using False by (subst fill_loop.simps) simp
    ultimately show ?thesis by auto
  next
    case True
    then have lt: "unat i < unat n" by (simp add: word_less_nat_alt)
    with "1.prems" have inb: "unat i < length p" by simp
    let ?q = "p[unat i := ucast (i AND 0xFF)]"
    from "1.IH" [OF True inb] "1.prems"
    obtain p' where p': "fill_loop (i + 1) n ?q = Some p'" "length p' = length p"
      "\<forall>j<length p. p' ! j = (if unat (i + 1) \<le> j \<and> j < unat n then of_nat j else ?q ! j)"
      by auto
    have step: "fill_loop i n p = Some p'"
      using True inb p'(1) by (subst fill_loop.simps) simp
    have "\<forall>j<length p. p' ! j = (if unat i \<le> j \<and> j < unat n then of_nat j else p ! j)"
    proof (intro allI impI)
      fix j assume j: "j < length p"
      show "p' ! j = (if unat i \<le> j \<and> j < unat n then of_nat j else p ! j)"
      proof (cases "j = unat i")
        case True
        with p'(3) j inb lt show ?thesis
          by (simp add: size_t_succ [OF \<open>i < n\<close>] pattern_byte)
      next
        case False
        with p'(3) j show ?thesis
          by (auto simp: size_t_succ [OF \<open>i < n\<close>])
      qed
    qed
    with step p'(2) show ?thesis by blast
  qed
qed

lemma verify_loop_match:
  "unat n \<le> length p \<Longrightarrow> \<forall>j. unat i \<le> j \<and> j < unat n \<longrightarrow> p ! j = of_nat j \<Longrightarrow>
   verify_loop i n p = Some 0"
proof (induction i n p rule: verify_loop.induct)
  case (1 i n p)
  show ?case
  proof (cases "i < n")
    case False
    then show ?thesis by (subst verify_loop.simps) simp
  next
    case True
    then have lt: "unat i < unat n" by (simp add: word_less_nat_alt)
    with "1.prems" have inb: "unat i < length p" by simp
    have here: "p ! unat i = ucast (i AND 0xFF)"
      using "1.prems"(2) lt by (simp add: pattern_byte)
    have "verify_loop (i + 1) n p = Some 0"
      using "1.IH" [OF True inb] here "1.prems" by (simp add: size_t_succ [OF True])
    then show ?thesis using True inb here by (subst verify_loop.simps) simp
  qed
qed

lemma verify_loop_mismatch:
  "unat n \<le> length p \<Longrightarrow> unat i \<le> k \<Longrightarrow> k < unat n \<Longrightarrow> p ! k \<noteq> of_nat k \<Longrightarrow>
   \<forall>j. unat i \<le> j \<and> j < k \<longrightarrow> p ! j = of_nat j \<Longrightarrow>
   \<exists>r. verify_loop i n p = Some r \<and> unat r = k + 1"
proof (induction i n p rule: verify_loop.induct)
  case (1 i n p)
  from "1.prems" have lt: "unat i < unat n" by simp
  then have True: "i < n" by (simp add: word_less_nat_alt)
  from lt "1.prems" have inb: "unat i < length p" by simp
  show ?case
  proof (cases "k = unat i")
    case True
    with "1.prems" have "p ! unat i \<noteq> ucast (i AND 0xFF)" by (simp add: pattern_byte)
    then have "verify_loop i n p = Some (i + 1)"
      using \<open>i < n\<close> inb by (subst verify_loop.simps) simp
    with True show ?thesis by (simp add: size_t_succ [OF \<open>i < n\<close>])
  next
    case False
    with "1.prems" have ik: "unat i < k" by simp
    with "1.prems" have here: "p ! unat i = ucast (i AND 0xFF)" by (simp add: pattern_byte)
    have "\<exists>r. verify_loop (i + 1) n p = Some r \<and> unat r = k + 1"
      using "1.IH" [OF True inb] here "1.prems" ik by (simp add: size_t_succ [OF True])
    then show ?thesis using True inb here by (subst verify_loop.simps) simp
  qed
qed


lemma for_repeats_rule:
  assumes "I r st" "0 \<le> r" "r \<le> REPEAT_COUNT"
    and "\<And>r st. 0 \<le> r \<Longrightarrow> r < REPEAT_COUNT \<Longrightarrow> I r st \<Longrightarrow>
                 \<exists>st'. body r st = Some st' \<and> I (r + 1) st'"
  shows "\<exists>st'. for_repeats body r st = Some st' \<and> I REPEAT_COUNT st'"
  using assms
proof (induction body r st rule: for_repeats.induct)
  case (1 body r st)
  note step = "1.prems"(4)
  show ?case
  proof (cases "r < REPEAT_COUNT")
    case False
    with "1.prems" have "r = REPEAT_COUNT" by simp
    with "1.prems"(1) show ?thesis by (subst for_repeats.simps) simp
  next
    case True
    from step [OF "1.prems"(2) True "1.prems"(1)]
    obtain st1 where st1: "body r st = Some st1" "I (r + 1) st1" by blast
    have "\<exists>st'. for_repeats body (r + 1) st1 = Some st' \<and> I REPEAT_COUNT st'"
      using "1.prems"(2) True st1(2) step by (intro "1.IH" [OF True st1(1)]) auto
    then show ?thesis using True st1(1) by (subst for_repeats.simps) simp
  qed
qed

lemma for_sizes_rule:
  assumes "I si st"
    and "\<And>si st. si < NUM_TEST_SIZES \<Longrightarrow> TEST_SIZES ! si \<le> max_size \<Longrightarrow> I si st \<Longrightarrow>
                 \<exists>st'. body si (TEST_SIZES ! si) st = Some st' \<and> I (si + 1) st'"
  shows "\<exists>st' k. for_sizes body max_size si st = Some st' \<and> I k st' \<and> si \<le> k \<and>
            k \<le> max si NUM_TEST_SIZES \<and>
            (k < NUM_TEST_SIZES \<longrightarrow> max_size < TEST_SIZES ! k) \<and>
            (\<forall>j. si \<le> j \<and> j < k \<longrightarrow> TEST_SIZES ! j \<le> max_size)"
  using assms
proof (induction body max_size si st rule: for_sizes.induct)
  case (1 body max_size si st)
  note step = "1.prems"(2)
  show ?case
  proof (cases "si < NUM_TEST_SIZES")
    case False
    then have "for_sizes body max_size si st = Some st"
      by (subst for_sizes.simps) simp
    with False "1.prems"(1) show ?thesis by (intro exI [of _ st] exI [of _ si]) auto
  next
    case True
    show ?thesis
    proof (cases "TEST_SIZES ! si > max_size")
      case big: True
      then have "for_sizes body max_size si st = Some st"
        using True by (subst for_sizes.simps) simp
      with True big "1.prems"(1) show ?thesis by (intro exI [of _ st] exI [of _ si]) auto
    next
      case False
      then have le: "TEST_SIZES ! si \<le> max_size" by simp
      from step [OF True le "1.prems"(1)]
      obtain st1 where st1: "body si (TEST_SIZES ! si) st = Some st1" "I (si + 1) st1" by blast
      have "\<exists>st' k. for_sizes body max_size (si + 1) st1 = Some st' \<and> I k st' \<and> si + 1 \<le> k \<and>
            k \<le> max (si + 1) NUM_TEST_SIZES \<and>
            (k < NUM_TEST_SIZES \<longrightarrow> max_size < TEST_SIZES ! k) \<and>
            (\<forall>j. si + 1 \<le> j \<and> j < k \<longrightarrow> TEST_SIZES ! j \<le> max_size)"
        using st1(2) step by (intro "1.IH" [OF True refl False st1(1)]) auto
      then obtain st' k where k: "for_sizes body max_size (si + 1) st1 = Some st'" "I k st'"
        "si + 1 \<le> k" "k \<le> max (si + 1) NUM_TEST_SIZES"
        "k < NUM_TEST_SIZES \<longrightarrow> max_size < TEST_SIZES ! k"
        "\<forall>j. si + 1 \<le> j \<and> j < k \<longrightarrow> TEST_SIZES ! j \<le> max_size" by blast
      have run: "for_sizes body max_size si st = Some st'"
        using True False st1(1) k(1) by (subst for_sizes.simps) simp
      have "\<forall>j. si \<le> j \<and> j < k \<longrightarrow> TEST_SIZES ! j \<le> max_size"
      proof (intro allI impI)
        fix j assume "si \<le> j \<and> j < k"
        then show "TEST_SIZES ! j \<le> max_size"
          using k(6) le by (cases "j = si") auto
      qed
      with run k True show ?thesis by (intro exI [of _ st'] exI [of _ k]) auto
    qed
  qed
qed

lemma transfers_append [simp]: "transfers (a @ b) = transfers a @ transfers b"
  by (simp add: transfers_def)

lemma touched_append [simp]: "touched (a @ b) = touched a @ touched b"
  by (simp add: touched_def)

lemma checks_append [simp]: "checks (a @ b) = checks a @ checks b"
  by (simp add: checks_def)

lemma summaries_append [simp]: "summaries (a @ b) = summaries a @ summaries b"
  by (simp add: summaries_def)

lemma projections_Nil [simp]:
  "transfers [] = []" "touched [] = []" "checks [] = []" "summaries [] = []"
  by (simp_all add: transfers_def touched_def checks_def summaries_def)

lemma repeats_inv_step:
  assumes spec: "repeat_spec m vf L sz b rep"
    and r: "0 \<le> r" "r < REPEAT_COUNT"
    and inv: "repeats_inv m vf L sz b out0 r st"
  shows "\<exists>st'. rep r st = Some st' \<and> repeats_inv m vf L sz b out0 (r + 1) st'"
proof -
  from inv obtain d where d: "length (local_buf st) = L" "length (times st) = nat REPEAT_COUNT"
    "\<forall>i<nat r. times st ! i \<noteq> None" "out st = out0 @ d"
    "transfers d = map (\<lambda>r. (m, sz, r)) [0..r - 1]"
    "touched d = replicate (nat r) (sz, b)"
    "checks d = (if vf \<and> 0 < r then Op sz 0 # Check sz # map (Op sz) [1..r - 1]
                 else map (Op sz) [0..r - 1])"
    "summaries d = []"
    unfolding repeats_inv_def by blast
  from spec r d(1,2) obtain st' e t where e: "rep r st = Some st'" "length (local_buf st') = L"
    "times st' = (times st)[nat r := Some t]" "out st' = out st @ e"
    "transfers e = [(m, sz, r)]" "touched e = [(sz, b)]"
    "checks e = (if vf \<and> r = 0 then [Op sz r, Check sz] else [Op sz r])" "summaries e = []"
    unfolding repeat_spec_def by blast
  have up: "[0..r] = [0..r - 1] @ [r]" using r(1) by (rule upto_rec2)
  have nr: "nat (r + 1) = Suc (nat r)" using r(1) by simp
  have rlt: "nat r < length (times st)" using r d(2) by simp
  have t1: "\<forall>i<nat (r + 1). times st' ! i \<noteq> None"
    using d(3) rlt by (auto simp: e(3) nr nth_list_update less_Suc_eq)
  have t2: "transfers (d @ e) = map (\<lambda>r. (m, sz, r)) [0..r + 1 - 1]"
    using d(5) e(5) up by simp
  have t3: "touched (d @ e) = replicate (nat (r + 1)) (sz, b)"
    using d(6) e(6) by (simp add: nr replicate_append_same)
  have t4: "checks (d @ e) = (if vf \<and> 0 < r + 1 then Op sz 0 # Check sz # map (Op sz) [1..r + 1 - 1]
                      else map (Op sz) [0..r + 1 - 1])"
  proof (cases "r = 0")
    case True
    with d(7) e(7) show ?thesis by simp
  next
    case False
    with r(1) have "1 \<le> r" by simp
    then have "[1..r] = [1..r - 1] @ [r]" by (rule upto_rec2)
    with d(7) e(7) False r(1) up show ?thesis by simp
  qed
  have "repeats_inv m vf L sz b out0 (r + 1) st'"
    unfolding repeats_inv_def
    using e(2) d(2) t1 t2 t3 t4 d(8) e(8) by (auto simp: e(3) e(4) d(4) intro!: exI [of _ "d @ e"])
  with e(1) show ?thesis by blast
qed

lemma repeats_run:
  assumes spec: "repeat_spec m vf L sz b rep" and len: "length (local_buf st) = L"
  shows "\<exists>st' d. for_repeats rep 0 (fresh_times st) = Some st' \<and> length (local_buf st') = L \<and>
           length (times st') = 5 \<and> None \<notin> set (times st') \<and> out st' = out st @ d \<and>
           transfers d = exp_transfers m [sz] \<and> touched d = exp_touched (\<lambda>s. b) [sz] \<and>
           checks d = exp_checks vf [sz] \<and> summaries d = []"
proof -
  have init: "repeats_inv m vf L sz b (out st) 0 (fresh_times st)"
    unfolding repeats_inv_def using len by (simp add: fresh_times_def REPEAT_COUNT_def)
  have "\<exists>st'. for_repeats rep 0 (fresh_times st) = Some st' \<and>
          repeats_inv m vf L sz b (out st) REPEAT_COUNT st'"
  proof (rule for_repeats_rule [where I = "repeats_inv m vf L sz b (out st)" and body = rep])
    show "repeats_inv m vf L sz b (out st) 0 (fresh_times st)" by (rule init)
    show "(0::int) \<le> 0" by simp
    show "0 \<le> REPEAT_COUNT" by (simp add: REPEAT_COUNT_def)
  next
    fix r st1
    assume "0 \<le> r" "r < REPEAT_COUNT" "repeats_inv m vf L sz b (out st) r st1"
    then show "\<exists>st'. rep r st1 = Some st' \<and> repeats_inv m vf L sz b (out st) (r + 1) st'"
      by (rule repeats_inv_step [OF spec])
  qed
  then obtain st' where st': "for_repeats rep 0 (fresh_times st) = Some st'"
    "repeats_inv m vf L sz b (out st) REPEAT_COUNT st'"
    by blast
  from st'(2) obtain d where d: "length (local_buf st') = L" "length (times st') = 5"
    "\<forall>i<5. times st' ! i \<noteq> None" "out st' = out st @ d"
    "transfers d = map (\<lambda>r. (m, sz, r)) [0..4]"
    "touched d = replicate 5 (sz, b)"
    "checks d = (if vf then Op sz 0 # Check sz # map (Op sz) [1..4] else map (Op sz) [0..4])"
    "summaries d = []"
    unfolding repeats_inv_def by (auto simp: REPEAT_COUNT_def)
  have u04: "[0..4::int] = [0, 1, 2, 3, 4]" and u14: "[1..4::int] = [1, 2, 3, 4]"
    by (simp_all add: upto_rec1)
  have "None \<notin> set (times st')"
    using d(2,3) by (auto simp: in_set_conv_nth)
  with st'(1) d u04 u14 show ?thesis
    by (intro exI [of _ st'] exI [of _ d])
       (simp add: exp_transfers_def exp_touched_def exp_checks_def)
qed

lemma exp_append [simp]:
  "exp_transfers m (a @ b) = exp_transfers m a @ exp_transfers m b"
  "exp_touched bytes (a @ b) = exp_touched bytes a @ exp_touched bytes b"
  "exp_checks vf (a @ b) = exp_checks vf a @ exp_checks vf b"
  by (simp_all add: exp_transfers_def exp_touched_def exp_checks_def)

lemma exp_Nil [simp]:
  "exp_transfers m [] = []" "exp_touched bytes [] = []" "exp_checks vf [] = []"
  by (simp_all add: exp_transfers_def exp_touched_def exp_checks_def)

lemma sizes_inv_step:
  assumes spec: "repeat_spec m vf L (TEST_SIZES ! si) (bytes (TEST_SIZES ! si)) rep"
    and si: "si < NUM_TEST_SIZES"
    and inv: "sizes_inv m vf L bytes si st"
  shows "\<exists>st'. do { st1 \<leftarrow> for_repeats rep 0 (fresh_times st);
                   Some (emit [Summary m (TEST_SIZES ! si) (times st1) REPEAT_COUNT] st1) } = Some st' \<and>
              sizes_inv m vf L bytes (si + 1) st'"
proof -
  let ?sz = "TEST_SIZES ! si"
  from inv have len: "length (local_buf st) = L" by (simp add: sizes_inv_def)
  from repeats_run [OF spec len]
  obtain st1 d where d: "for_repeats rep 0 (fresh_times st) = Some st1" "length (local_buf st1) = L"
    "length (times st1) = 5" "None \<notin> set (times st1)" "out st1 = out st @ d"
    "transfers d = exp_transfers m [?sz]" "touched d = exp_touched (\<lambda>s. bytes ?sz) [?sz]"
    "checks d = exp_checks vf [?sz]" "summaries d = []"
    by blast
  have tk: "take (Suc si) TEST_SIZES = take si TEST_SIZES @ [?sz]"
    using si by (simp add: NUM_TEST_SIZES_def take_Suc_conv_app_nth)
  have tb: "exp_touched (\<lambda>s. bytes ?sz) [?sz] = exp_touched bytes [?sz]"
    by (simp add: exp_touched_def)
  have sm: "summaries [Summary m ?sz (times st1) REPEAT_COUNT] = [(times st1, REPEAT_COUNT)]"
    by (simp add: summaries_def)
  have px: "transfers [Summary m ?sz (times st1) REPEAT_COUNT :: 'a event] = []"
    "touched [Summary m ?sz (times st1) REPEAT_COUNT :: 'a event] = []"
    "checks [Summary m ?sz (times st1) REPEAT_COUNT :: 'a event] = []"
    by (simp_all add: transfers_def touched_def checks_def)
  have "sizes_inv m vf L bytes (si + 1) (emit [Summary m ?sz (times st1) REPEAT_COUNT] st1)"
    using inv d(2-) unfolding sizes_inv_def
    by (simp add: emit_def tk tb sm px)
  with d(1) show ?thesis by simp
qed

lemma run_sizes_take:
  assumes "k \<le> NUM_TEST_SIZES" "k < NUM_TEST_SIZES \<longrightarrow> max_size < TEST_SIZES ! k"
    "\<forall>j. 0 \<le> j \<and> j < k \<longrightarrow> TEST_SIZES ! j \<le> max_size"
  shows "run_sizes max_size = take k TEST_SIZES"
  unfolding run_sizes_def
  using assms by (intro takeWhile_eq_take_P_nth) (auto simp: NUM_TEST_SIZES_def)

lemma sizes_run:
  assumes spec: "\<And>si. si < NUM_TEST_SIZES \<Longrightarrow> TEST_SIZES ! si \<le> max_size \<Longrightarrow>
       repeat_spec m vf L (TEST_SIZES ! si) (bytes (TEST_SIZES ! si)) (rep si (TEST_SIZES ! si))"
    and len: "length (local_buf (st0 :: 'd bench)) = L" and out0: "out st0 = []"
  shows "\<exists>st'. for_sizes
            (\<lambda>si sz st. do { st1 \<leftarrow> for_repeats (rep si sz) 0 (fresh_times st);
                             Some (emit [Summary m sz (times st1) REPEAT_COUNT] st1) })
            max_size 0 st0 = Some st' \<and>
          transfers (out st') = exp_transfers m (run_sizes max_size) \<and>
          touched (out st') = exp_touched bytes (run_sizes max_size) \<and>
          checks (out st') = exp_checks vf (run_sizes max_size) \<and>
          length (summaries (out st')) = length (run_sizes max_size) \<and>
          (\<forall>p \<in> set (summaries (out st')).
              snd p = REPEAT_COUNT \<and> length (fst p) = 5 \<and> None \<notin> set (fst p))"
proof -
  let ?body = "\<lambda>si sz st. do { st1 \<leftarrow> for_repeats (rep si sz) 0 (fresh_times st);
                             Some (emit [Summary m sz (times st1) REPEAT_COUNT] st1) }"
  have init: "sizes_inv m vf L bytes 0 st0"
    using len out0 by (simp add: sizes_inv_def)
  have "\<exists>st' k. for_sizes ?body max_size 0 st0 = Some st' \<and> sizes_inv m vf L bytes k st' \<and> 0 \<le> k \<and>
            k \<le> max 0 NUM_TEST_SIZES \<and>
            (k < NUM_TEST_SIZES \<longrightarrow> max_size < TEST_SIZES ! k) \<and>
            (\<forall>j. 0 \<le> j \<and> j < k \<longrightarrow> TEST_SIZES ! j \<le> max_size)"
  proof (rule for_sizes_rule [where I = "sizes_inv m vf L bytes" and body = ?body])
    show "sizes_inv m vf L bytes 0 st0" by (rule init)
  next
    fix si and st :: "'d bench"
    assume a: "si < NUM_TEST_SIZES" "TEST_SIZES ! si \<le> max_size" "sizes_inv m vf L bytes si st"
    show "\<exists>st'. ?body si (TEST_SIZES ! si) st = Some st' \<and> sizes_inv m vf L bytes (si + 1) st'"
      by (rule sizes_inv_step [OF spec [OF a(1,2)] a(1) a(3)])
  qed
  then obtain st' k where k: "for_sizes ?body max_size 0 st0 = Some st'"
    "sizes_inv m vf L bytes k st'" "k \<le> NUM_TEST_SIZES"
    "k < NUM_TEST_SIZES \<longrightarrow> max_size < TEST_SIZES ! k"
    "\<forall>j. 0 \<le> j \<and> j < k \<longrightarrow> TEST_SIZES ! j \<le> max_size"
    by auto
  have rs: "run_sizes max_size = take k TEST_SIZES"
    by (rule run_sizes_take [OF k(3,4,5)])
  have "length (take k TEST_SIZES) = k" using k(3) by (simp add: NUM_TEST_SIZES_def)
  with k(1,2) rs show ?thesis
    unfolding sizes_inv_def by (intro exI [of _ st']) simp
qed

lemma verify_loop_total: "unat n \<le> length p \<Longrightarrow> \<exists>r. verify_loop i n p = Some r"
proof (induction i n p rule: verify_loop.induct)
  case (1 i n p)
  show ?case
  proof (cases "i < n")
    case False
    then show ?thesis by (subst verify_loop.simps) simp
  next
    case True
    then have "unat i < unat n" by (simp add: word_less_nat_alt)
    with "1.prems" have inb: "unat i < length p" by simp
    show ?thesis
    proof (cases "p ! unat i \<noteq> ucast (i AND 0xFF)")
      case True
      with \<open>i < n\<close> inb show ?thesis by (subst verify_loop.simps) simp
    next
      case False
      with "1.IH" [OF \<open>i < n\<close> inb] "1.prems" \<open>i < n\<close> inb show ?thesis
        by (subst verify_loop.simps) simp
    qed
  qed
qed

lemma direct_loop_total:
  "8 * unat count \<le> length p \<Longrightarrow> \<exists>c. direct_loop i count p cs = Some c"
proof (induction i count p cs rule: direct_loop.induct)
  case (1 i count p cs)
  show ?case
  proof (cases "i < count")
    case False
    then show ?thesis by (subst direct_loop.simps) simp
  next
    case True
    then have "unat i < unat count" by (simp add: word_less_nat_alt)
    with "1.prems" have "8 * unat i + 8 \<le> length p" by simp
    then obtain w where w: "load64 p i = Some w" by (simp add: load64_def)
    from "1.IH" [OF True w "1.prems"] True w show ?thesis
      by (subst direct_loop.simps) simp
  qed
qed

lemma projections_Cons [simp]:
  "transfers (e # es) = timed_of e @ transfers es"
  "touched (e # es) = touched_of e @ touched es"
  "checks (e # es) = check_of e @ checks es"
  "summaries (e # es) = summary_of e @ summaries es"
  by (simp_all add: transfers_def touched_def checks_def summaries_def)

lemma xpmem_memcpy_repeat_spec:
  assumes "unat sz \<le> L" "unat sz \<le> length attached"
  shows "repeat_spec Xpmem_cpy True L sz (unat sz) (xpmem_memcpy_repeat el attached sz)"
  unfolding repeat_spec_def
proof (intro allI impI)
  fix r and st :: "'a bench"
  assume a: "0 \<le> r \<and> r < REPEAT_COUNT \<and> length (local_buf st) = L \<and>
             length (times st) = nat REPEAT_COUNT"
  define b1 where "b1 = take (unat sz) attached @ drop (unat sz) (local_buf st)"
  have lb1: "length b1 = L" using assms a by (simp add: b1_def)
  then obtain err where err: "verify_pattern b1 sz = Some err"
    using verify_loop_total [of sz b1 0] assms by (auto simp: verify_pattern_def)
  let ?d = "[Timed Xpmem_cpy sz (unat sz) r, Result Xpmem_cpy sz (el r) (r + 1)] @
            (if r = 0 then [VerifyCall sz, if err \<noteq> 0 then Mismatch (err - 1) else VerifyOK] else [])"
  let ?st' = "st\<lparr>local_buf := b1, times := (times st)[nat r := Some (el r)], out := out st @ ?d\<rparr>"
  have run: "xpmem_memcpy_repeat el attached sz r st = Some ?st'"
    using assms a err
    by (simp add: xpmem_memcpy_repeat_def memset_bytes_def memcpy_bytes_def store_time_def
        emit_def b1_def [symmetric] Let_def)
  show "\<exists>st' d t. xpmem_memcpy_repeat el attached sz r st = Some st' \<and> length (local_buf st') = L \<and>
            times st' = (times st)[nat r := Some t] \<and> out st' = out st @ d \<and>
            transfers d = [(Xpmem_cpy, sz, r)] \<and> touched d = [(sz, unat sz)] \<and>
            checks d = (if True \<and> r = 0 then [Op sz r, Check sz] else [Op sz r]) \<and>
            summaries d = []"
    using run lb1 by (intro exI [of _ ?st'] exI [of _ ?d] exI [of _ "el r"]) simp
qed

lemma xpmem_direct_repeat_spec:
  assumes "unat sz \<le> length attached"
  shows "repeat_spec Xpmem_dir False L sz (8 * unat (sz div 8)) (xpmem_direct_repeat el attached sz)"
  unfolding repeat_spec_def
proof (intro allI impI)
  fix r and st :: "'a bench"
  assume a: "0 \<le> r \<and> r < REPEAT_COUNT \<and> length (local_buf st) = L \<and>
             length (times st) = nat REPEAT_COUNT"
  have "unat (sz div 8) = unat sz div 8" by (simp add: unat_div)
  then have "8 * unat (sz div 8) \<le> length attached" using assms by simp
  then obtain c where c: "direct_loop 0 (sz div 8) attached 0 = Some c"
    using direct_loop_total by blast
  let ?d = "[Timed Xpmem_dir sz (8 * unat (sz div 8)) r, Result Xpmem_dir sz (el r) (r + 1)]"
  let ?st' = "st\<lparr>times := (times st)[nat r := Some (el r)], out := out st @ ?d\<rparr>"
  have run: "xpmem_direct_repeat el attached sz r st = Some ?st'"
    using a c by (simp add: xpmem_direct_repeat_def store_time_def emit_def Let_def)
  show "\<exists>st' d t. xpmem_direct_repeat el attached sz r st = Some st' \<and> length (local_buf st') = L \<and>
            times st' = (times st)[nat r := Some t] \<and> out st' = out st @ d \<and>
            transfers d = [(Xpmem_dir, sz, r)] \<and> touched d = [(sz, 8 * unat (sz div 8))] \<and>
            checks d = (if False \<and> r = 0 then [Op sz r, Check sz] else [Op sz r]) \<and>
            summaries d = []"
    using run a by (intro exI [of _ ?st'] exI [of _ ?d] exI [of _ "el r"]) simp
qed

lemma local_memcpy_repeat_spec:
  assumes "unat sz \<le> L" "unat sz \<le> length src"
  shows "repeat_spec Local_cpy False L sz (unat sz) (local_memcpy_repeat el src sz)"
  unfolding repeat_spec_def
proof (intro allI impI)
  fix r and st :: "'a bench"
  assume a: "0 \<le> r \<and> r < REPEAT_COUNT \<and> length (local_buf st) = L \<and>
             length (times st) = nat REPEAT_COUNT"
  define b1 where "b1 = take (unat sz) src @ drop (unat sz) (local_buf st)"
  have lb1: "length b1 = L" using assms a by (simp add: b1_def)
  let ?d = "[Timed Local_cpy sz (unat sz) r, Result Local_cpy sz (el r) (r + 1)]"
  let ?st' = "st\<lparr>local_buf := b1, times := (times st)[nat r := Some (el r)], out := out st @ ?d\<rparr>"
  have run: "local_memcpy_repeat el src sz r st = Some ?st'"
    using assms a
    by (simp add: local_memcpy_repeat_def memset_bytes_def memcpy_bytes_def store_time_def
        emit_def b1_def [symmetric] Let_def)
  show "\<exists>st' d t. local_memcpy_repeat el src sz r st = Some st' \<and> length (local_buf st') = L \<and>
            times st' = (times st)[nat r := Some t] \<and> out st' = out st @ d \<and>
            transfers d = [(Local_cpy, sz, r)] \<and> touched d = [(sz, unat sz)] \<and>
            checks d = (if False \<and> r = 0 then [Op sz r, Check sz] else [Op sz r]) \<and>
            summaries d = []"
    using run lb1 by (intro exI [of _ ?st'] exI [of _ ?d] exI [of _ "el r"]) simp
qed

lemma bench_xpmem_memcpy_run:
  assumes "unat max_size \<le> length attached" "unat max_size \<le> length lbuf"
  shows "\<exists>evs. bench_xpmem_memcpy el attached lbuf max_size = Some evs \<and>
           run_ok Xpmem_cpy True unat max_size evs"
proof -
  have "\<exists>st'. for_sizes
            (\<lambda>si sz st. do { st1 \<leftarrow> for_repeats (xpmem_memcpy_repeat (el si) attached sz) 0 (fresh_times st);
                             Some (emit [Summary Xpmem_cpy sz (times st1) REPEAT_COUNT] st1) })
            max_size 0 \<lparr>local_buf = lbuf, times = [], out = []\<rparr> = Some st' \<and>
          transfers (out st') = exp_transfers Xpmem_cpy (run_sizes max_size) \<and>
          touched (out st') = exp_touched unat (run_sizes max_size) \<and>
          checks (out st') = exp_checks True (run_sizes max_size) \<and>
          length (summaries (out st')) = length (run_sizes max_size) \<and>
          (\<forall>p \<in> set (summaries (out st')).
              snd p = REPEAT_COUNT \<and> length (fst p) = 5 \<and> None \<notin> set (fst p))"
  proof (rule sizes_run [where L = "length lbuf"
        and rep = "\<lambda>si sz. xpmem_memcpy_repeat (el si) attached sz"])
    fix si assume "si < NUM_TEST_SIZES" "TEST_SIZES ! si \<le> max_size"
    then have "unat (TEST_SIZES ! si) \<le> unat max_size" by (simp add: word_le_nat_alt)
    with assms show "repeat_spec Xpmem_cpy True (length lbuf) (TEST_SIZES ! si)
        (unat (TEST_SIZES ! si)) (xpmem_memcpy_repeat (el si) attached (TEST_SIZES ! si))"
      by (intro xpmem_memcpy_repeat_spec) auto
  qed simp_all
  then show ?thesis
    by (auto simp: bench_xpmem_memcpy_def run_ok_def list_all_iff)
qed

lemma bench_xpmem_direct_run:
  assumes "unat max_size \<le> length attached"
  shows "\<exists>evs. bench_xpmem_direct el attached max_size = Some evs \<and>
           run_ok Xpmem_dir False (\<lambda>sz. 8 * unat (sz div 8)) max_size evs"
proof -
  have "\<exists>st'. for_sizes
            (\<lambda>si sz st. do { st1 \<leftarrow> for_repeats (xpmem_direct_repeat (el si) attached sz) 0 (fresh_times st);
                             Some (emit [Summary Xpmem_dir sz (times st1) REPEAT_COUNT] st1) })
            max_size 0 \<lparr>local_buf = [], times = [], out = []\<rparr> = Some st' \<and>
          transfers (out st') = exp_transfers Xpmem_dir (run_sizes max_size) \<and>
          touched (out st') = exp_touched (\<lambda>sz. 8 * unat (sz div 8)) (run_sizes max_size) \<and>
          checks (out st') = exp_checks False (run_sizes max_size) \<and>
          length (summaries (out st')) = length (run_sizes max_size) \<and>
          (\<forall>p \<in> set (summaries (out st')).
              snd p = REPEAT_COUNT \<and> length (fst p) = 5 \<and> None \<notin> set (fst p))"
  proof (rule sizes_run [where L = 0
        and rep = "\<lambda>si sz. xpmem_direct_repeat (el si) attached sz"])
    fix si assume "si < NUM_TEST_SIZES" "TEST_SIZES ! si \<le> max_size"
    then have "unat (TEST_SIZES ! si) \<le> unat max_size" by (simp add: word_le_nat_alt)
    with assms show "repeat_spec Xpmem_dir False 0 (TEST_SIZES ! si)
        (8 * unat (TEST_SIZES ! si div 8)) (xpmem_direct_repeat (el si) attached (TEST_SIZES ! si))"
      by (intro xpmem_direct_repeat_spec) auto
  qed simp_all
  then show ?thesis
    by (auto simp: bench_xpmem_direct_def run_ok_def list_all_iff)
qed

lemma bench_local_memcpy_run:
  "\<exists>evs. bench_local_memcpy el True True max_size = Some evs \<and>
           run_ok Local_cpy False unat max_size evs"
proof -
  let ?src = "replicate (unat max_size) (0xAA :: uint8_t)"
  let ?dst = "replicate (unat max_size) (0 :: uint8_t)"
  have "\<exists>st'. for_sizes
            (\<lambda>si sz st. do { st1 \<leftarrow> for_repeats (local_memcpy_repeat (el si) ?src sz) 0 (fresh_times st);
                             Some (emit [Summary Local_cpy sz (times st1) REPEAT_COUNT] st1) })
            max_size 0 \<lparr>local_buf = ?dst, times = [], out = []\<rparr> = Some st' \<and>
          transfers (out st') = exp_transfers Local_cpy (run_sizes max_size) \<and>
          touched (out st') = exp_touched unat (run_sizes max_size) \<and>
          checks (out st') = exp_checks False (run_sizes max_size) \<and>
          length (summaries (out st')) = length (run_sizes max_size) \<and>
          (\<forall>p \<in> set (summaries (out st')).
              snd p = REPEAT_COUNT \<and> length (fst p) = 5 \<and> None \<notin> set (fst p))"
  proof (rule sizes_run [where L = "unat max_size"
        and rep = "\<lambda>si sz. local_memcpy_repeat (el si) ?src sz"])
    fix si assume "si < NUM_TEST_SIZES" "TEST_SIZES ! si \<le> max_size"
    then have "unat (TEST_SIZES ! si) \<le> unat max_size" by (simp add: word_le_nat_alt)
    then show "repeat_spec Local_cpy False (unat max_size) (TEST_SIZES ! si)
        (unat (TEST_SIZES ! si)) (local_memcpy_repeat (el si) ?src (TEST_SIZES ! si))"
      by (intro local_memcpy_repeat_spec) auto
  qed simp_all
  then show ?thesis
    by (auto simp: bench_local_memcpy_def run_ok_def list_all_iff Let_def)
qed

lemma recent_snoc [simp]:
  "recent (es @ [e]) = (if is_phase_write e then [] else recent es @ [e])"
  by (simp add: recent_def)

lemma recent_Nil [simp]: "recent [] = []"
  by (simp add: recent_def)

lemma recent_snoc2 [simp]:
  "recent (es @ [e, e']) =
     (if is_phase_write e' then [] else (if is_phase_write e then [] else recent es @ [e]) @ [e'])"
  using recent_snoc [of "es @ [e]" e'] by simp

lemma nth_TEST_SIZES_nonzero: "si < NUM_TEST_SIZES \<Longrightarrow> TEST_SIZES ! si \<noteq> 0"
proof -
  assume "si < NUM_TEST_SIZES"
  then have "TEST_SIZES ! si \<in> set TEST_SIZES" by (simp add: NUM_TEST_SIZES_def)
  moreover have "0 \<notin> set TEST_SIZES" by (simp add: TEST_SIZES_def)
  ultimately show ?thesis by metis
qed

lemma shm_inv_init: "shm_inv (shm_init z)"
  by (simp add: shm_inv_def shm_init_def parent_ok_def child_ok_def child_idle_def recently_def)

lemma fill_pattern_total:
  "unat n \<le> length p \<Longrightarrow> \<exists>p'. fill_pattern p n = Some p' \<and> length p' = length p"
  using fill_loop_spec [of n p 0] by (auto simp: fill_pattern_def)

lemmas inv_defs = shm_inv_def parent_step_def child_step_def parent_ok_def child_ok_def
  in_loop_def logged_def recently_def child_idle_def is_exit_def REPEAT_COUNT_def Let_def

lemma shm_inv_parent_fill:
  assumes inv: "shm_inv s" and pc: "p_pc s = P_fill"
  shows "shm_inv (parent_step s)"
proof -
  from inv pc have "unat (p_size s) \<le> length (shm s)"
    by (simp add: shm_inv_def parent_ok_def in_loop_def word_le_nat_alt)
  then obtain m where m: "fill_pattern (shm s) (p_size s) = Some m" "length m = length (shm s)"
    using fill_pattern_total by blast
  with inv pc show ?thesis
    by (cases "c_pc s"; simp add: inv_defs)
qed

lemma shm_inv_parent: "shm_inv s \<Longrightarrow> shm_inv (parent_step s)"
  apply (cases "p_pc s = P_fill")
   apply (erule (1) shm_inv_parent_fill)
  apply (cases "p_pc s"; cases "c_pc s"; simp add: inv_defs nth_TEST_SIZES_nonzero)
              apply auto
  done

lemma verify_pattern_total: "unat n \<le> length p \<Longrightarrow> \<exists>r. verify_pattern p n = Some r"
  using verify_loop_total [of n p 0] by (simp add: verify_pattern_def)

lemma shm_inv_child_copy:
  assumes inv: "shm_inv s" and pc: "c_pc s = C_copy"
  shows "shm_inv (child_step env s)"
proof (cases env)
  case None
  with inv pc show ?thesis by (simp add: child_step_def)
next
  case (Some t)
  from inv pc have sz: "unat (c_size s) \<le> unat shm_max_size"
    and l1: "length (c_buf s) = unat shm_max_size" and l2: "length (shm s) = unat shm_max_size"
    by (auto simp: shm_inv_def parent_ok_def child_ok_def in_loop_def word_le_nat_alt)
  with inv pc Some show ?thesis
    by (cases "p_pc s"; simp add: inv_defs memset_bytes_def memcpy_bytes_def)
qed

lemma shm_inv_child_verify:
  assumes inv: "shm_inv s" and pc: "c_pc s = C_verify"
  shows "shm_inv (child_step env s)"
proof -
  from inv pc have "unat (c_size s) \<le> length (c_buf s)"
    by (auto simp: shm_inv_def parent_ok_def child_ok_def in_loop_def word_le_nat_alt)
  then obtain err where "verify_pattern (c_buf s) (c_size s) = Some err"
    using verify_pattern_total by blast
  with inv pc show ?thesis
    by (cases "p_pc s"; simp add: inv_defs)
qed

lemma shm_inv_child: "shm_inv s \<Longrightarrow> shm_inv (child_step env s)"
  apply (cases "c_pc s = C_copy")
   apply (erule (1) shm_inv_child_copy)
  apply (cases "c_pc s = C_verify")
   apply (erule (1) shm_inv_child_verify)
  apply (cases "c_pc s"; cases "p_pc s"; cases env; simp add: inv_defs)
                     apply auto
  done

lemma reachable_inv: "reachable z s \<Longrightarrow> shm_inv s"
proof (induction rule: reachable.induct)
  case init
  show ?case by (rule shm_inv_init)
next
  case (step s l)
  then show ?case
    by (cases l) (simp_all add: shm_step_def shm_inv_parent shm_inv_child)
qed

lemma posts_append [simp]: "posts (a @ b) = posts a @ posts b"
  by (simp add: posts_def)

lemma posts_simps [simp]: "posts [] = []" "posts (e # es) = post_of e @ posts es"
  by (simp_all add: posts_def)

lemma summaries_simps [simp]:
  "summaries [] = []" "summaries (e # es) = summary_of e @ summaries es"
  by (simp_all add: summaries_def)

lemma exp_posts_snoc:
  "exp_posts (szs @ [sz]) = exp_posts szs @ map (Pair sz) [0, 1, 2, 3, 4]"
  by (simp add: exp_posts_def)

lemma exp_posts_Nil [simp]: "exp_posts [] = []"
  by (simp add: exp_posts_def)

lemma nth_le_shm_max: "si < NUM_TEST_SIZES \<Longrightarrow> TEST_SIZES ! si \<le> shm_max_size"
proof -
  assume "si < NUM_TEST_SIZES"
  then have "TEST_SIZES ! si \<in> set TEST_SIZES" by (simp add: NUM_TEST_SIZES_def)
  moreover have "\<forall>x \<in> set TEST_SIZES. x \<le> shm_max_size"
    by (simp add: TEST_SIZES_def shm_max_size_def NUM_TEST_SIZES_def)
  ultimately show ?thesis by blast
qed

lemma upto_0_4: "[0..4::int] = [0, 1, 2, 3, 4]"
  by (simp add: upto_rec1)

lemma trace_inv_init: "trace_inv (shm_init z)"
  by (simp add: trace_inv_def shm_init_def posted_so_far_def filled_upto_def)

lemma posted_so_far_cong:
  "p_pc s' = p_pc s \<Longrightarrow> p_si s' = p_si s \<Longrightarrow> p_size s' = p_size s \<Longrightarrow> p_r s' = p_r s \<Longrightarrow>
   iteration (ctrl s') = iteration (ctrl s) \<Longrightarrow> posted_so_far s' = posted_so_far s"
  by (cases "p_pc s"; simp add: posted_so_far_def)

lemma trace_inv_cong:
  assumes "trace_inv s" "p_pc s' = p_pc s" "p_si s' = p_si s" "p_size s' = p_size s"
    "p_r s' = p_r s" "iteration (ctrl s') = iteration (ctrl s)" "p_times s' = p_times s"
    "posts (log s') = posts (log s)" "summaries (log s') = summaries (log s)"
  shows "trace_inv s'"
  using assms posted_so_far_cong [of s' s]
  by (simp add: trace_inv_def filled_upto_def)

lemma trace_inv_child: "trace_inv s \<Longrightarrow> trace_inv (child_step env s)"
  by (erule trace_inv_cong; cases "c_pc s"; cases env)
     (simp_all add: child_step_def logged_def split: option.splits)

lemma trace_inv_parent:
  assumes inv: "shm_inv s" and tr: "trace_inv s"
  shows "trace_inv (parent_step s)"
proof (cases "p_pc s")
  case P_size_loop
  show ?thesis
  proof (cases "p_si s < NUM_TEST_SIZES")
    case True
    with nth_le_shm_max have "\<not> TEST_SIZES ! p_si s > shm_max_size" by (simp add: not_less)
    with True P_size_loop tr show ?thesis
      by (simp add: trace_inv_def parent_step_def posted_so_far_def filled_upto_def Let_def)
  next
    case False
    then have "take (p_si s) TEST_SIZES = TEST_SIZES" by (simp add: NUM_TEST_SIZES_def)
    with False P_size_loop tr show ?thesis
      by (simp add: trace_inv_def parent_step_def posted_so_far_def filled_upto_def Let_def)
  qed
next
  case P_repeat_loop
  from inv P_repeat_loop have il: "in_loop s" by (simp add: shm_inv_def parent_ok_def)
  show ?thesis
  proof (cases "p_r s < REPEAT_COUNT")
    case True
    with P_repeat_loop tr show ?thesis
      by (simp add: trace_inv_def parent_step_def posted_so_far_def filled_upto_def Let_def)
  next
    case False
    with il have r5: "p_r s = 5" by (simp add: in_loop_def REPEAT_COUNT_def)
    from il have "take (Suc (p_si s)) TEST_SIZES = take (p_si s) TEST_SIZES @ [p_size s]"
      by (simp add: in_loop_def NUM_TEST_SIZES_def take_Suc_conv_app_nth)
    with False r5 P_repeat_loop tr show ?thesis
      by (simp add: trace_inv_def parent_step_def posted_so_far_def filled_upto_def Let_def
          exp_posts_snoc upto_0_4)
  qed
next
  case P_fill
  from inv P_fill have "unat (p_size s) \<le> length (shm s)"
    by (simp add: shm_inv_def parent_ok_def in_loop_def word_le_nat_alt)
  then obtain m where "fill_pattern (shm s) (p_size s) = Some m"
    using fill_pattern_total by blast
  with P_fill tr show ?thesis
    by (simp add: trace_inv_def parent_step_def posted_so_far_def filled_upto_def Let_def)
next
  case P_post
  from inv P_post have "0 \<le> p_r s" "data_size (ctrl s) = p_size s" "iteration (ctrl s) = p_r s"
    by (simp_all add: shm_inv_def parent_ok_def in_loop_def)
  moreover from this have "[0..p_r s] = [0..p_r s - 1] @ [p_r s]" by (simp add: upto_rec2)
  ultimately show ?thesis using P_post tr
    by (simp add: trace_inv_def parent_step_def posted_so_far_def filled_upto_def Let_def logged_def)
next
  case P_get_time
  from inv P_get_time have r: "0 \<le> p_r s" "nat (p_r s) < length (p_times s)"
    by (auto simp: shm_inv_def parent_ok_def in_loop_def)
  then have "nat (p_r s + 1) = Suc (nat (p_r s))" by simp
  with r P_get_time tr show ?thesis
    by (auto simp: trace_inv_def parent_step_def posted_so_far_def filled_upto_def Let_def
        logged_def nth_list_update less_Suc_eq)
next
  case P_summary
  from inv P_summary have "length (p_times s) = 5" by (simp add: shm_inv_def parent_ok_def in_loop_def)
  moreover from tr P_summary have "\<forall>i<5. p_times s ! i \<noteq> None"
    by (simp add: trace_inv_def filled_upto_def)
  ultimately have "None \<notin> set (p_times s)" by (auto simp: in_set_conv_nth)
  with \<open>length (p_times s) = 5\<close> P_summary tr show ?thesis
    by (simp add: trace_inv_def parent_step_def posted_so_far_def filled_upto_def Let_def
        logged_def good_summary_def)
next
  case P_end_phase
  with inv have "data_size (ctrl s) = 0" by (simp add: shm_inv_def parent_ok_def)
  with P_end_phase tr show ?thesis
    by (simp add: trace_inv_def parent_step_def posted_so_far_def filled_upto_def Let_def logged_def)
qed (use tr in \<open>auto simp: trace_inv_def parent_step_def posted_so_far_def filled_upto_def
        Let_def logged_def\<close>)

lemma reachable_trace_inv: "reachable z s \<Longrightarrow> trace_inv s"
proof (induction rule: reachable.induct)
  case init
  show ?case by (rule trace_inv_init)
next
  case (step s l)
  then show ?case
    by (cases l) (simp_all add: shm_step_def trace_inv_parent trace_inv_child reachable_inv)
qed

lemma view_parent: "shm_inv s \<Longrightarrow> view (parent_step s) = par_view (view s)"
  apply (cases "p_pc s = P_fill")
  subgoal
  proof -
    assume inv: "shm_inv s" and pc: "p_pc s = P_fill"
    then have "unat (p_size s) \<le> length (shm s)"
      by (simp add: shm_inv_def parent_ok_def in_loop_def word_le_nat_alt)
    then obtain m where "fill_pattern (shm s) (p_size s) = Some m"
      using fill_pattern_total by blast
    with pc show ?thesis by (simp add: view_def parent_step_def)
  qed
  apply (cases "p_pc s"; simp add: view_def inv_defs)
   apply (auto dest: nth_le_shm_max)
  done

lemma view_child: "shm_inv s \<Longrightarrow> view (child_step env s) = chi_view env (view s)"
  apply (cases "c_pc s = C_copy")
  subgoal
  proof -
    assume inv: "shm_inv s" and pc: "c_pc s = C_copy"
    then have "unat (c_size s) \<le> unat shm_max_size"
      and "length (c_buf s) = unat shm_max_size" and "length (shm s) = unat shm_max_size"
      by (auto simp: shm_inv_def parent_ok_def child_ok_def in_loop_def word_le_nat_alt)
    with pc show ?thesis
      by (cases env; simp add: view_def child_step_def memset_bytes_def memcpy_bytes_def logged_def)
  qed
  apply (cases "c_pc s = C_verify")
  subgoal
  proof -
    assume inv: "shm_inv s" and pc: "c_pc s = C_verify"
    then have "unat (c_size s) \<le> length (c_buf s)"
      by (auto simp: shm_inv_def parent_ok_def child_ok_def in_loop_def word_le_nat_alt)
    then obtain err where "verify_pattern (c_buf s) (c_size s) = Some err"
      using verify_pattern_total by blast
    with pc show ?thesis by (simp add: view_def child_step_def logged_def)
  qed
  apply (cases "c_pc s"; cases "p_pc s"; cases env; simp add: view_def inv_defs)
  done

lemma run_snoc: "run (ls @ [l]) s = shm_step l (run ls s)"
  by (simp add: run_def)

lemma reachable_run: "reachable z (run ls (shm_init z))"
  by (induction ls rule: rev_induct) (auto simp: run_snoc run_def intro: reachable.intros)

lemma view_run: "shm_inv s \<Longrightarrow> shm_inv (run ls s) \<and> view (run ls s) = foldl (\<lambda>v l. view_step l v) (view s) ls"
proof (induction ls rule: rev_induct)
  case Nil
  then show ?case by (simp add: run_def)
next
  case (snoc l ls)
  then show ?case
    by (cases l)
       (simp_all add: run_snoc shm_step_def view_step_def shm_inv_parent shm_inv_child
          view_parent view_child)
qed

lemma view_init: "view (shm_init z) = (P_size_loop, C_alloc, 0, 0, 0, True)"
  by (simp add: view_def shm_init_def)

lemma phase_in_range: "shm_inv s \<Longrightarrow> phase (ctrl s) \<in> {0, 1, 2}"
  by (cases "p_pc s") (auto simp: shm_inv_def parent_ok_def)

lemma phase_view: "phase (ctrl s) = fst (snd (snd (snd (snd (view s)))))"
  by (simp add: view_def)

lemma design_parent: "shm_inv s \<Longrightarrow> phase_change_by_design Par s"
  unfolding phase_change_by_design_def shm_step_def Let_def label.case
  apply (subst (1 2 3 4) phase_view [of "parent_step s"])
  apply (simp only: view_parent)
  apply (cases "p_pc s"; simp add: view_def shm_inv_def parent_ok_def in_loop_def)
  done

lemma design_child: "shm_inv s \<Longrightarrow> phase_change_by_design (Chi env) s"
  unfolding phase_change_by_design_def shm_step_def Let_def label.case
  apply (subst (1 2 3 4) phase_view [of "child_step env s"])
  apply (simp only: view_child)
  apply (cases "c_pc s"; cases env; simp add: view_def shm_inv_def child_ok_def)
  done

lemma c1_view:
  "view (run (c1_sched (1::int)) (shm_init 0)) = (P_reset, C_wait, 0, 1, 2, False)"
proof -
  have "foldl (\<lambda>v l. view_step l v) (P_size_loop, C_alloc, 0, 0, 0, True) (c1_sched (1::int))
      = (P_reset, C_wait, 0, 1, 2, False)"
    by code_simp
  with view_run [OF shm_inv_init [of "0::int"], where ls = "c1_sched 1"] show ?thesis
    by (simp add: view_init)
qed


lemma copy_state_snoc [simp]: "copy_state (xs @ [x]) = chk_step (copy_state xs) x"
  by (simp add: copy_state_def)

lemma copy_state_Nil [simp]: "copy_state [] = Some None"
  by (simp add: copy_state_def)





lemma joining_child_pcs:
  assumes inv: "shm_inv s" and j: "joining s"
  shows "c_pc s = C_alloc \<or> c_pc s = C_wait \<or> c_pc s = C_get_size \<or>
         c_pc s = C_free \<or> is_exit (c_pc s)"
  using assms
  by (cases "c_pc s"; cases "p_pc s"; simp add: joining_def shm_inv_def child_ok_def is_exit_def)

lemma joining_facts:
  assumes inv: "shm_inv s" and j: "joining s"
  shows "phase (ctrl s) = 1" "data_size (ctrl s) = 0"
  using assms
  by (cases "p_pc s"; simp add: joining_def shm_inv_def parent_ok_def)+

lemma joining_parent:
  assumes inv: "shm_inv s" and j: "joining s"
  shows "joining (parent_step s) \<and> log (parent_step s) = log s \<and>
         c_pc (parent_step s) = c_pc s"
  using j by (cases "p_pc s"; simp add: joining_def parent_step_def)

lemma joining_child:
  assumes inv: "shm_inv s" and j: "joining s"
  shows "joining (child_step env s) \<and>
         filter is_phase_write (log (child_step env s)) = filter is_phase_write (log s) \<and>
         child_rank (c_pc (child_step env s)) \<le> child_rank (c_pc s) - 1"
  using joining_child_pcs [OF inv j] joining_facts [OF inv j] j
  by (cases "c_pc s"; cases env;
      simp add: joining_def child_step_def child_rank_def is_exit_def logged_def)

lemma joining_step:
  assumes inv: "shm_inv s" and j: "joining s"
  shows "shm_inv (shm_step l s) \<and> joining (shm_step l s) \<and>
         filter is_phase_write (log (shm_step l s)) = filter is_phase_write (log s) \<and>
         child_rank (c_pc (shm_step l s)) \<le> child_rank (c_pc s) - (if is_chi l then 1 else 0)"
proof (cases l)
  case Par
  with joining_parent [OF inv j] shm_inv_parent [OF inv] show ?thesis
    by (simp add: shm_step_def)
next
  case (Chi env)
  with joining_child [OF inv j, of env] shm_inv_child [OF inv, of env] show ?thesis
    by (simp add: shm_step_def)
qed

lemma run_Cons: "run (l # ls) s = run ls (shm_step l s)"
  by (simp add: run_def)

lemma run_Nil [simp]: "run [] s = s"
  by (simp add: run_def)

lemma joining_run:
  "shm_inv s \<Longrightarrow> joining s \<Longrightarrow>
   shm_inv (run ls s) \<and> joining (run ls s) \<and>
   filter is_phase_write (log (run ls s)) = filter is_phase_write (log s) \<and>
   child_rank (c_pc (run ls s)) \<le> child_rank (c_pc s) - length (filter is_chi ls)"
proof (induction ls arbitrary: s)
  case Nil
  then show ?case by simp
next
  case (Cons l ls)
  from joining_step [OF Cons.prems, of l]
  have st: "shm_inv (shm_step l s)" "joining (shm_step l s)"
    "filter is_phase_write (log (shm_step l s)) = filter is_phase_write (log s)"
    "child_rank (c_pc (shm_step l s)) \<le> child_rank (c_pc s) - (if is_chi l then 1 else 0)"
    by simp_all
  from Cons.IH [OF st(1,2)]
  have ih: "shm_inv (run ls (shm_step l s))" "joining (run ls (shm_step l s))"
    "filter is_phase_write (log (run ls (shm_step l s))) =
       filter is_phase_write (log (shm_step l s))"
    "child_rank (c_pc (run ls (shm_step l s)))
       \<le> child_rank (c_pc (shm_step l s)) - length (filter is_chi ls)"
    by simp_all
  from ih(4) st(4) have "child_rank (c_pc (run ls (shm_step l s)))
       \<le> child_rank (c_pc s) - length (filter is_chi (l # ls))"
    by (cases "is_chi l") simp_all
  with ih(1,2,3) st(3) show ?case
    by (simp add: run_Cons)
qed

lemma child_rank_le_4: "child_rank pc \<le> 4"
  by (cases pc) (simp_all add: child_rank_def)

lemma join_completes:
  assumes inv: "shm_inv s" and j: "joining s" and n: "4 \<le> length (filter is_chi ls)"
  shows "p_pc (run (ls @ [Par]) s) = P_done"
proof -
  let ?s = "run ls s"
  from joining_run [OF inv j, of ls] have a: "shm_inv ?s" "joining ?s"
    "child_rank (c_pc ?s) \<le> child_rank (c_pc s) - length (filter is_chi ls)"
    by simp_all
  from a(3) n child_rank_le_4 [of "c_pc s"] have "child_rank (c_pc ?s) = 0" by simp
  moreover note joining_child_pcs [OF a(1,2)]
  ultimately have ex: "is_exit (c_pc ?s)" by (auto simp: child_rank_def)
  from a(2) have "p_pc ?s = P_join \<or> p_pc ?s = P_done" by (simp add: joining_def)
  then have "p_pc (parent_step ?s) = P_done"
    using ex by (auto simp: parent_step_def)
  then show ?thesis
    by (simp add: run_snoc shm_step_def)
qed

lemma summary_loop_ok:
  "0 \<le> i \<Longrightarrow> count \<le> int (length ts) \<Longrightarrow> \<exists>res. summary_loop F ts count i acc = Inr res"
proof (induction F ts count i acc rule: summary_loop.induct)
  case (1 F ts count i mn mx sm)
  show ?case
  proof (cases "i < count")
    case False
    then show ?thesis by (subst summary_loop.simps) simp
  next
    case True
    with "1.prems" have inb: "0 \<le> i \<and> nat i < length ts" by auto
    from "1.IH" [OF True inb refl refl refl] "1.prems"
    have "\<exists>res. summary_loop F ts count (i + 1)
            ((if f_less F (ts ! nat i) mn then ts ! nat i else mn),
             (if f_less F mx (ts ! nat i) then ts ! nat i else mx),
             f_add F sm (ts ! nat i)) = Inr res"
      by simp
    then show ?thesis using True inb
      by (subst summary_loop.simps) (simp add: Let_def)
  qed
qed

lemma print_summary_ok:
  assumes "1 \<le> count" "count \<le> int (length ts)"
  shows "\<exists>line. print_summary F sz ts count = Inr line"
proof -
  from assms have ne: "ts \<noteq> []" by auto
  from summary_loop_ok [of 0 count ts F "(ts ! 0, ts ! 0, f_of_int F 0)"] assms
  obtain res where "summary_loop F ts count 0 (ts ! 0, ts ! 0, f_of_int F 0) = Inr res"
    by auto
  with ne assms(1) show ?thesis
    by (cases res) (simp add: print_summary_def Let_def)
qed

lemma print_summary_empty: "print_summary F sz [] count = Inl OutOfBounds"
  by (simp add: print_summary_def)

lemma summary_loop_short:
  "0 \<le> i \<Longrightarrow> i \<le> int (length ts) \<Longrightarrow> int (length ts) < count \<Longrightarrow>
   summary_loop F ts count i acc = Inl OutOfBounds"
proof (induction F ts count i acc rule: summary_loop.induct)
  case (1 F ts count i mn mx sm)
  from "1.prems" have lt: "i < count" by simp
  show ?case
  proof (cases "nat i < length ts")
    case False
    with lt show ?thesis by (subst summary_loop.simps) simp
  next
    case True
    with "1.prems" have inb: "0 \<le> i \<and> nat i < length ts" by simp
    from "1.IH" [OF lt inb refl refl refl] "1.prems" True
    have "summary_loop F ts count (i + 1)
            ((if f_less F (ts ! nat i) mn then ts ! nat i else mn),
             (if f_less F mx (ts ! nat i) then ts ! nat i else mx),
             f_add F sm (ts ! nat i)) = Inl OutOfBounds"
      by simp
    then show ?thesis using lt inb
      by (subst summary_loop.simps) (simp add: Let_def)
  qed
qed

lemma print_summary_short:
  assumes "int (length ts) < count"
  shows "print_summary F sz ts count = Inl OutOfBounds"
  using summary_loop_short [of 0 ts count F "(ts ! 0, ts ! 0, f_of_int F 0)"] assms
  by (simp add: print_summary_def)

lemma print_summary_zero: "ts \<noteq> [] \<Longrightarrow> print_summary F sz ts 0 = Inl DivisionByZero"
  by (simp add: print_summary_def summary_loop.simps split: prod.splits)

lemma takeWhile_le_sorted:
  "sorted (xs :: size_t list) \<Longrightarrow> takeWhile (\<lambda>s. s \<le> m) xs = filter (\<lambda>s. s \<le> m) xs"
proof (induction xs)
  case Nil
  then show ?case by simp
next
  case (Cons a xs)
  show ?case
  proof (cases "a \<le> m")
    case True
    with Cons show ?thesis by simp
  next
    case False
    with Cons.prems have "\<forall>x \<in> set xs. \<not> x \<le> m" by auto
    then have "filter (\<lambda>s. s \<le> m) xs = []" by (simp add: filter_empty_conv)
    with False show ?thesis by simp
  qed
qed

lemma run_sizes_filter: "run_sizes m = filter (\<lambda>s. s \<le> m) TEST_SIZES"
proof -
  have "sorted TEST_SIZES" by (simp add: TEST_SIZES_def)
  then show ?thesis unfolding run_sizes_def by (rule takeWhile_le_sorted)
qed

lemma run_sizes_shm: "run_sizes shm_max_size = TEST_SIZES"
  by (simp add: run_sizes_def shm_max_size_def NUM_TEST_SIZES_def TEST_SIZES_def)

lemma exp_posts_sizes: "p \<in> set (exp_posts szs) \<Longrightarrow> fst p \<in> set szs"
  by (auto simp: exp_posts_def)

lemma posts_bounded:
  assumes "shm_inv s" "trace_inv s" "p \<in> set (posts (log s))"
  shows "fst p \<le> shm_max_size"
proof -
  have ts: "\<And>x. x \<in> set TEST_SIZES \<Longrightarrow> x \<le> shm_max_size"
    by (simp add: TEST_SIZES_def shm_max_size_def NUM_TEST_SIZES_def) auto
  have tk: "\<And>n x. x \<in> set (take n TEST_SIZES) \<Longrightarrow> x \<le> shm_max_size"
    using ts by (meson in_set_takeD)
  from assms(2,3) have p: "p \<in> set (posted_so_far s)" by (simp add: trace_inv_def)
  show ?thesis
  proof (cases "p_pc s = P_fault")
    case True
    with assms(1) show ?thesis by (simp add: shm_inv_def parent_ok_def)
  next
    case False
    have "fst p \<in> set TEST_SIZES \<or> (\<exists>n. fst p \<in> set (take n TEST_SIZES)) \<or>
          fst p = 0 \<or> (fst p = p_size s \<and> p_pc s \<in> {P_repeat_loop, P_fill, P_set_size,
             P_set_iter, P_post, P_wait, P_get_time, P_get_verify, P_reset})"
      using p False
      by (cases "p_pc s") (auto simp: posted_so_far_def Let_def dest: exp_posts_sizes)
    moreover have "p_pc s \<in> {P_repeat_loop, P_fill, P_set_size,
             P_set_iter, P_post, P_wait, P_get_time, P_get_verify, P_reset} \<Longrightarrow>
           p_size s \<le> shm_max_size"
      using assms(1) by (auto simp: shm_inv_def parent_ok_def in_loop_def)
    ultimately show ?thesis using ts tk by auto
  qed
qed

lemma run_append: "run (a @ b) s = run b (run a s)"
  by (simp add: run_def)

lemma full_view:
  "view (run (full_sched (1::int)) (shm_init 0)) = (P_done, C_exit 0, 8, 5, 1, True)"
proof -
  have "foldl (\<lambda>v l. view_step l v) (P_size_loop, C_alloc, 0, 0, 0, True) (full_sched (1::int))
      = (P_done, C_exit 0, 8, 5, 1, True)"
    by code_simp
  with view_run [OF shm_inv_init [of "0::int"], where ls = "full_sched 1"] show ?thesis
    by (simp add: view_init)
qed

lemma sizes_view:
  "view (run (sizes_sched (1::int)) (shm_init 0)) = (P_end_size, C_wait, 8, 5, 0, False)"
proof -
  have "foldl (\<lambda>v l. view_step l v) (P_size_loop, C_alloc, 0, 0, 0, True) (sizes_sched (1::int))
      = (P_end_size, C_wait, 8, 5, 0, False)"
    by code_simp
  with view_run [OF shm_inv_init [of "0::int"], where ls = "sizes_sched 1"] show ?thesis
    by (simp add: view_init)
qed



lemma end_steps:
  assumes inv: "shm_inv s" and tr: "trace_inv s" and pc: "p_pc s = P_end_size"
  shows "p_pc (run [Par, Par] s) = P_join" "data_size (ctrl (run [Par, Par] s)) = 0"
    "phase (ctrl (run [Par, Par] s)) = 1"
    "posts (log (run [Par, Par] s)) = exp_posts TEST_SIZES @ [(0, iteration (ctrl s))]"
proof -
  from tr pc have p: "posts (log s) = exp_posts TEST_SIZES"
    by (simp add: trace_inv_def posted_so_far_def)
  have s1: "run [Par] s = logged [Wr Parent DataSize]
      (s\<lparr>p_pc := P_end_phase, ctrl := (ctrl s)\<lparr>data_size := 0\<rparr>\<rparr>)"
    using pc by (simp add: run_def shm_step_def parent_step_def)
  have s2: "run [Par, Par] s = parent_step (run [Par] s)"
    by (simp add: run_def shm_step_def)
  show "p_pc (run [Par, Par] s) = P_join" "data_size (ctrl (run [Par, Par] s)) = 0"
    "phase (ctrl (run [Par, Par] s)) = 1"
    "posts (log (run [Par, Par] s)) = exp_posts TEST_SIZES @ [(0, iteration (ctrl s))]"
    unfolding s2 s1 using p by (simp_all add: parent_step_def logged_def)
qed

lemma no_zero_post: "filter (\<lambda>p. fst p = 0) (exp_posts TEST_SIZES) = []"
  by (simp add: exp_posts_def TEST_SIZES_def)

subsection \<open>The table entries in the direct traversal and in the requests\<close>










section \<open>Round trip of generator and verifier\<close>

text \<open>
  C2. For every length \<open>s\<close> (zero and lengths that are not multiples of 8 included) and
  every buffer that holds at least \<open>s\<close> bytes, \<^verbatim>\<open>fill_pattern\<close> followed at once by
  \<^verbatim>\<open>verify_pattern\<close> with the same length returns 0.
\<close>

theorem fill_then_verify_succeeds:
  assumes "unat s \<le> length buf"
  shows "\<exists>buf'. fill_pattern buf s = Some buf' \<and> length buf' = length buf \<and>
                verify_pattern buf' s = Some 0"
proof -
  from fill_loop_spec [OF assms, of 0]
  obtain p' where p': "fill_loop 0 s buf = Some p'" "length p' = length buf"
    "\<forall>j<length buf. p' ! j = (if j < unat s then of_nat j else buf ! j)"
    by auto
  have "verify_loop 0 s p' = Some 0"
    using assms p'(2,3) by (intro verify_loop_match) auto
  with p' show ?thesis by (simp add: fill_pattern_def verify_pattern_def)
qed

theorem fill_then_verify_succeeds_witness:
  "(\<exists>buf'. fill_pattern [7, 7, 7] 3 = Some buf' \<and> length buf' = 3 \<and>
            verify_pattern buf' 3 = Some 0) \<and>
   (\<exists>buf'. fill_pattern [] 0 = Some buf' \<and> length buf' = 0 \<and>
            verify_pattern buf' 0 = Some 0)"
  using fill_then_verify_succeeds [of 3 "[7, 7, 7]"] fill_then_verify_succeeds [of 0 "[]"]
  by (simp add: numeral_3_eq_3)

section \<open>Result of the verifier\<close>

text \<open>
  C3. For every buffer \<open>b\<close> holding at least \<open>n\<close> bytes, \<^verbatim>\<open>verify_pattern(b, n)\<close>
  returns 0 if byte \<open>i\<close> equals \<open>i mod 256\<close> for every \<open>i < n\<close>; otherwise it returns
  \<open>k + 1\<close> (which is not 0) where \<open>k\<close> is the least offset whose byte differs from
  \<open>k mod 256\<close>.
\<close>

theorem verify_pattern_result:
  assumes "unat n \<le> length b"
  shows "\<exists>r. verify_pattern b n = Some r \<and>
           ((\<forall>i<unat n. unat (b ! i) = i mod 256) \<longrightarrow> r = 0) \<and>
           (\<not> (\<forall>i<unat n. unat (b ! i) = i mod 256) \<longrightarrow>
              r \<noteq> 0 \<and> unat r = (LEAST k. k < unat n \<and> unat (b ! k) \<noteq> k mod 256) + 1)"
proof (cases "\<forall>i<unat n. unat (b ! i) = i mod 256")
  case True
  then have "verify_loop 0 n b = Some 0"
    using assms by (intro verify_loop_match) (auto simp: byte_eq_iff)
  with True show ?thesis by (simp add: verify_pattern_def)
next
  case False
  define k where "k = (LEAST k. k < unat n \<and> unat (b ! k) \<noteq> k mod 256)"
  from False have ex: "\<exists>k. k < unat n \<and> unat (b ! k) \<noteq> k mod 256" by auto
  from LeastI_ex [OF ex] have k: "k < unat n" "unat (b ! k) \<noteq> k mod 256"
    unfolding k_def by simp_all
  have least: "\<forall>j<k. \<not> (j < unat n \<and> unat (b ! j) \<noteq> j mod 256)"
    unfolding k_def using not_less_Least by blast
  with k(1) have before: "\<forall>j. unat (0::size_t) \<le> j \<and> j < k \<longrightarrow> b ! j = of_nat j"
    by (auto simp: byte_eq_iff)
  from k(2) have at: "b ! k \<noteq> of_nat k" by (simp add: byte_eq_iff)
  from verify_loop_mismatch [OF assms _ k(1) at before]
  obtain r where r: "verify_loop 0 n b = Some r" "unat r = k + 1" by auto
  from r(2) have "r \<noteq> 0" by (auto simp: unat_eq_0 [symmetric] simp del: unat_eq_0)
  with r False show ?thesis by (simp add: verify_pattern_def k_def)
qed

theorem verify_pattern_result_witness:
  "(\<exists>r. verify_pattern [0, 1, 9, 3] 4 = Some r \<and>
      ((\<forall>i<unat (4::size_t). unat ([0, 1, 9, 3 :: uint8_t] ! i) = i mod 256) \<longrightarrow> r = 0) \<and>
      (\<not> (\<forall>i<unat (4::size_t). unat ([0, 1, 9, 3 :: uint8_t] ! i) = i mod 256) \<longrightarrow>
         r \<noteq> 0 \<and>
         unat r = (LEAST k. k < unat (4::size_t) \<and> unat ([0, 1, 9, 3 :: uint8_t] ! k) \<noteq> k mod 256) + 1))
   \<and> verify_pattern [0, 1, 9, 3] 4 = Some 3"
proof -
  have h: "unat (4::size_t) \<le> length [0, 1, 9, 3 :: uint8_t]" by simp
  have "verify_pattern [0, 1, 9, 3] 4 = Some 3"
    by (simp add: verify_pattern_def verify_loop.simps)
  with verify_pattern_result [OF h] show ?thesis by simp
qed

section \<open>The size table\<close>



section \<open>The phase protocol of shm\_bench\<close>

text \<open>
  C1, as amended. In every reachable state of the two processes \<^verbatim>\<open>phase\<close> is 0, 1 or
  2, and a step that changes it is one of three: the parent takes it from 0 to 1
  having written \<^verbatim>\<open>data_size\<close> since the last store to \<^verbatim>\<open>phase\<close>, and having written
  \<^verbatim>\<open>iteration\<close> exactly when the request is not the terminating one (\<^verbatim>\<open>data_size\<close>
  not 0); the child takes it from 1 to 2 having written \<^verbatim>\<open>copy_time\<close> and
  \<^verbatim>\<open>verify_err\<close>; the parent takes it from 2 to 0 having read \<^verbatim>\<open>copy_time\<close>, and
  having read \<^verbatim>\<open>verify_err\<close> exactly on the first repeat (\<open>r = 0\<close>).
\<close>

theorem phase_protocol:
  assumes "reachable z s"
  shows "phase (ctrl s) \<in> {0, 1, 2} \<and> phase_change_by_design l s"
  using reachable_inv [OF assms] phase_in_range design_parent design_child
  by (cases l) auto


theorem phase_protocol_witness:
  "reachable (0::int) (run (c1_sched 1) (shm_init 0)) \<and>
   phase (ctrl (run (c1_sched (1::int)) (shm_init 0))) \<in> {0, 1, 2} \<and>
   phase_change_by_design Par (run (c1_sched (1::int)) (shm_init 0)) \<and>
   phase (ctrl (run (c1_sched (1::int)) (shm_init 0))) = 2 \<and>
   p_r (run (c1_sched (1::int)) (shm_init 0)) = 1"
proof -
  have r: "reachable (0::int) (run (c1_sched 1) (shm_init 0))" by (rule reachable_run)
  from c1_view have "phase (ctrl (run (c1_sched (1::int)) (shm_init 0))) = 2"
    "p_r (run (c1_sched (1::int)) (shm_init 0)) = 1"
    by (simp_all add: view_def)
  with r phase_protocol [OF r, of Par] show ?thesis by simp
qed

text \<open>
  C1 as stated fails: on the second repeat (\<open>r = 1\<close>) of the first size the parent
  resets \<^verbatim>\<open>phase\<close> from 2 to 0 without having read \<^verbatim>\<open>verify_err\<close>.
\<close>

theorem phase_claim_counterexample:
  "reachable (0::int) (run (c1_sched 1) (shm_init 0)) \<and>
   \<not> phase_change_as_claimed Par (run (c1_sched (1::int)) (shm_init 0))"
proof -
  let ?s = "run (c1_sched (1::int)) (shm_init 0)"
  have r: "reachable 0 ?s" by (rule reachable_run)
  then have inv: "shm_inv ?s" by (rule reachable_inv)
  from c1_view have pc: "p_pc ?s = P_reset" "p_r ?s = 1" "phase (ctrl ?s) = 2"
    by (simp_all add: view_def)
  from inv pc have no: "\<not> recently (Rd Parent VerifyErr) ?s"
    by (simp add: shm_inv_def parent_ok_def)
  have "view (shm_step Par ?s) = par_view (view ?s)"
    using view_parent [OF inv] by (simp add: shm_step_def)
  then have "phase (ctrl (shm_step Par ?s)) = 0"
    by (simp add: c1_view) (simp add: view_def)
  with r pc no show ?thesis
    by (auto simp: phase_change_as_claimed_def Let_def)
qed

section \<open>Termination of the handshake\<close>

text \<open>
  C4. Once the size table is exhausted (the parent is about to run
  \<^verbatim>\<open>ctrl->data_size = 0\<close>), the parent's next two steps post one request with size 0
  and \<^verbatim>\<open>phase = 1\<close> (the only posted request with size 0) and take it to \<^verbatim>\<open>wait(NULL)\<close>,
  not to the polling loop. From then on, under every schedule, the parent stays at the
  join or past it, \<^verbatim>\<open>phase\<close> stays 1 and nobody stores to \<^verbatim>\<open>phase\<close> again; and as soon
  as the child has been scheduled four more times it has exited, so that the parent's
  next step returns from the join. The join blocks: under every schedule the parent is
  past \<^verbatim>\<open>wait(NULL)\<close> only if the child has exited, and while the child has not exited
  the parent is at the join and a step of the parent leaves the whole state as it is.
\<close>

theorem termination_handshake:
  assumes "reachable z s" "p_pc s = P_end_size"
  shows "p_pc (run [Par, Par] s) = P_join \<and>
         data_size (ctrl (run [Par, Par] s)) = 0 \<and>
         phase (ctrl (run [Par, Par] s)) = 1 \<and>
         posts (log (run [Par, Par] s)) = exp_posts TEST_SIZES @ [(0, iteration (ctrl s))] \<and>
         length (filter (\<lambda>p. fst p = 0) (posts (log (run [Par, Par] s)))) = 1 \<and>
         (\<forall>ls. (p_pc (run ([Par, Par] @ ls) s) = P_join \<or> p_pc (run ([Par, Par] @ ls) s) = P_done) \<and>
               phase (ctrl (run ([Par, Par] @ ls) s)) = 1 \<and>
               filter is_phase_write (log (run ([Par, Par] @ ls) s)) =
                 filter is_phase_write (log (run [Par, Par] s))) \<and>
         (\<forall>ls. 4 \<le> length (filter is_chi ls) \<longrightarrow>
               p_pc (run ([Par, Par] @ ls @ [Par]) s) = P_done \<and>
               is_exit (c_pc (run ([Par, Par] @ ls @ [Par]) s))) \<and>
         (\<forall>ls. p_pc (run ([Par, Par] @ ls) s) = P_done \<longrightarrow>
               is_exit (c_pc (run ([Par, Par] @ ls) s))) \<and>
         (\<forall>ls. \<not> is_exit (c_pc (run ([Par, Par] @ ls) s)) \<longrightarrow>
               p_pc (run ([Par, Par] @ ls) s) = P_join \<and>
               run ([Par, Par] @ ls @ [Par]) s = run ([Par, Par] @ ls) s)"
proof -
  let ?s2 = "run [Par, Par] s"
  from assms(1) have inv: "shm_inv s" and tr: "trace_inv s"
    by (simp_all add: reachable_inv reachable_trace_inv)
  note e = end_steps [OF inv tr assms(2)]
  from view_run [OF inv, of "[Par, Par]"] have inv2: "shm_inv ?s2" by simp
  from e(1) have j2: "joining ?s2" by (simp add: joining_def)
  have one: "length (filter (\<lambda>p. fst p = 0) (posts (log ?s2))) = 1"
    by (simp add: e(4) no_zero_post)
  have stay: "\<forall>ls. (p_pc (run ([Par, Par] @ ls) s) = P_join \<or> p_pc (run ([Par, Par] @ ls) s) = P_done) \<and>
               phase (ctrl (run ([Par, Par] @ ls) s)) = 1 \<and>
               filter is_phase_write (log (run ([Par, Par] @ ls) s)) =
                 filter is_phase_write (log ?s2)"
  proof
    fix ls
    from joining_run [OF inv2 j2, of ls]
    have a: "shm_inv (run ls ?s2)" "joining (run ls ?s2)"
      "filter is_phase_write (log (run ls ?s2)) = filter is_phase_write (log ?s2)"
      by simp_all
    from joining_facts(1) [OF a(1,2)] a(2,3)
    show "(p_pc (run ([Par, Par] @ ls) s) = P_join \<or> p_pc (run ([Par, Par] @ ls) s) = P_done) \<and>
               phase (ctrl (run ([Par, Par] @ ls) s)) = 1 \<and>
               filter is_phase_write (log (run ([Par, Par] @ ls) s)) =
                 filter is_phase_write (log ?s2)"
      unfolding run_append by (simp add: joining_def)
  qed
  have fin: "\<forall>ls. 4 \<le> length (filter is_chi ls) \<longrightarrow>
               p_pc (run ([Par, Par] @ ls @ [Par]) s) = P_done \<and>
               is_exit (c_pc (run ([Par, Par] @ ls @ [Par]) s))"
  proof (intro allI impI)
    fix ls :: "'a label list"
    assume n: "4 \<le> length (filter is_chi ls)"
    have d: "p_pc (run (ls @ [Par]) ?s2) = P_done"
      by (rule join_completes [OF inv2 j2 n])
    from view_run [OF inv2, of "ls @ [Par]"] have "shm_inv (run (ls @ [Par]) ?s2)" by simp
    with d have "is_exit (c_pc (run (ls @ [Par]) ?s2))"
      by (simp add: shm_inv_def parent_ok_def)
    with d show "p_pc (run ([Par, Par] @ ls @ [Par]) s) = P_done \<and>
               is_exit (c_pc (run ([Par, Par] @ ls @ [Par]) s))"
      by (simp only: run_append)
  qed
  have blk: "\<forall>ls. p_pc (run ([Par, Par] @ ls) s) = P_done \<longrightarrow>
               is_exit (c_pc (run ([Par, Par] @ ls) s))"
  proof (intro allI impI)
    fix ls :: "'a label list"
    assume d: "p_pc (run ([Par, Par] @ ls) s) = P_done"
    from view_run [OF inv2, of ls] have "shm_inv (run ls ?s2)" by simp
    then have "shm_inv (run ([Par, Par] @ ls) s)" by (simp only: run_append)
    with d show "is_exit (c_pc (run ([Par, Par] @ ls) s))"
      by (simp add: shm_inv_def parent_ok_def)
  qed
  have held: "\<forall>ls. \<not> is_exit (c_pc (run ([Par, Par] @ ls) s)) \<longrightarrow>
               p_pc (run ([Par, Par] @ ls) s) = P_join \<and>
               run ([Par, Par] @ ls @ [Par]) s = run ([Par, Par] @ ls) s"
  proof (intro allI impI)
    fix ls :: "'a label list"
    let ?t = "run ls ?s2"
    assume "\<not> is_exit (c_pc (run ([Par, Par] @ ls) s))"
    then have n: "\<not> is_exit (c_pc ?t)" unfolding run_append .
    from joining_run [OF inv2 j2, of ls] have a: "shm_inv ?t" "joining ?t" by simp_all
    from a(1) n have "p_pc ?t \<noteq> P_done" by (auto simp: shm_inv_def parent_ok_def)
    with a(2) have j: "p_pc ?t = P_join" by (simp add: joining_def)
    with n have "parent_step ?t = ?t" by (simp add: parent_step_def)
    then have "run (ls @ [Par]) ?s2 = ?t" by (simp add: run_snoc shm_step_def)
    with j show "p_pc (run ([Par, Par] @ ls) s) = P_join \<and>
               run ([Par, Par] @ ls @ [Par]) s = run ([Par, Par] @ ls) s"
      by (simp only: run_append)
  qed
  show ?thesis
    by (rule conjI [OF e(1) conjI [OF e(2) conjI [OF e(3) conjI [OF e(4) conjI [OF one
          conjI [OF stay conjI [OF fin conjI [OF blk held]]]]]]]])
qed

theorem termination_handshake_witness:
  "reachable (0::int) (run (sizes_sched 1) (shm_init 0)) \<and>
   p_pc (run (sizes_sched (1::int)) (shm_init 0)) = P_end_size \<and>
   p_pc (run [Par, Par] (run (sizes_sched (1::int)) (shm_init 0))) = P_join \<and>
   phase (ctrl (run [Par, Par] (run (sizes_sched (1::int)) (shm_init 0)))) = 1 \<and>
   data_size (ctrl (run [Par, Par] (run (sizes_sched (1::int)) (shm_init 0)))) = 0 \<and>
   p_pc (run ([Par, Par] @ replicate 4 (Chi (Some 1)) @ [Par])
           (run (sizes_sched (1::int)) (shm_init 0))) = P_done \<and>
   is_exit (c_pc (run ([Par, Par] @ replicate 4 (Chi (Some 1)) @ [Par])
           (run (sizes_sched (1::int)) (shm_init 0)))) \<and>
   \<not> is_exit (c_pc (run ([Par, Par] @ [Chi (Some 1), Par, Chi (Some 1)])
           (run (sizes_sched (1::int)) (shm_init 0)))) \<and>
   p_pc (run ([Par, Par] @ [Chi (Some 1), Par, Chi (Some 1)] @ [Par])
           (run (sizes_sched (1::int)) (shm_init 0))) = P_join"
proof -
  let ?s = "run (sizes_sched (1::int)) (shm_init 0)"
  let ?ls = "[Chi (Some (1::int)), Par, Chi (Some 1)]"
  have r: "reachable 0 ?s" by (rule reachable_run)
  then have inv: "shm_inv ?s" by (rule reachable_inv)
  from sizes_view have pc: "p_pc ?s = P_end_size" by (simp add: view_def)
  have n: "4 \<le> length (filter is_chi (replicate 4 (Chi (Some (1::int)))))" by simp
  have "foldl (\<lambda>v l. view_step l v) (P_end_size, C_wait, 8, 5, 0, False)
          ([Par, Par] @ [Chi (Some (1::int)), Par, Chi (Some 1)]) =
        (P_join, C_free, 8, 5, 1, True)"
    by code_simp
  with view_run [OF inv, of "[Par, Par] @ ?ls"] sizes_view
  have "c_pc (run ([Par, Par] @ ?ls) ?s) = C_free" by (simp add: view_def)
  then have x: "\<not> is_exit (c_pc (run ([Par, Par] @ ?ls) ?s))" by (simp add: is_exit_def)
  note t = termination_handshake [OF r pc]
  from t have a: "p_pc (run [Par, Par] ?s) = P_join" "phase (ctrl (run [Par, Par] ?s)) = 1"
    "data_size (ctrl (run [Par, Par] ?s)) = 0" by blast+
  from t n have b: "p_pc (run ([Par, Par] @ replicate 4 (Chi (Some 1)) @ [Par]) ?s) = P_done"
    "is_exit (c_pc (run ([Par, Par] @ replicate 4 (Chi (Some 1)) @ [Par]) ?s))" by blast+
  from t x have c: "p_pc (run ([Par, Par] @ ?ls) ?s) = P_join"
    "run ([Par, Par] @ ?ls @ [Par]) ?s = run ([Par, Par] @ ?ls) ?s" by blast+
  from c have d: "p_pc (run ([Par, Par] @ ?ls @ [Par]) ?s) = P_join" by (simp only:)
  from r pc a b x d show ?thesis by (intro conjI)
qed

section \<open>The size table driver\<close>

text \<open>
  C5. In each of the three benchmarks of the importer, run on regions of \<open>max_size\<close>
  bytes, the timed operations are exactly five repeats (0 to 4) for each entry of the
  table up to the first one that exceeds \<open>max_size\<close>, in order; since the table is
  ascending these are all the entries not exceeding \<open>max_size\<close>, an entry equal to it
  included, and none is larger. In \<^verbatim>\<open>shm_bench\<close>, whose capacity is the last entry, no
  request with a size above the capacity is ever posted, and when the parent is done it
  has posted five repeats of every entry and then the terminating request.
\<close>

theorem size_table_driver:
  assumes "unat max_size \<le> length attached" "unat max_size \<le> length lbuf"
  shows "(\<exists>evs. bench_xpmem_memcpy el attached lbuf max_size = Some evs \<and>
            transfers evs = exp_transfers Xpmem_cpy (run_sizes max_size)) \<and>
         (\<exists>evs. bench_xpmem_direct el attached max_size = Some evs \<and>
            transfers evs = exp_transfers Xpmem_dir (run_sizes max_size)) \<and>
         (\<exists>evs. bench_local_memcpy el True True max_size = Some evs \<and>
            transfers evs = exp_transfers Local_cpy (run_sizes max_size)) \<and>
         run_sizes max_size = takeWhile (\<lambda>s. s \<le> max_size) TEST_SIZES \<and>
         run_sizes max_size = filter (\<lambda>s. s \<le> max_size) TEST_SIZES \<and>
         (\<forall>s. reachable z s \<longrightarrow>
            (\<forall>p \<in> set (posts (log s)). fst p \<le> shm_max_size) \<and>
            (p_pc s = P_done \<longrightarrow>
               posts (log s) = exp_posts (run_sizes shm_max_size) @ [(0, iteration (ctrl s))]))"
proof -
  from bench_xpmem_memcpy_run [OF assms, of el]
  have a: "\<exists>evs. bench_xpmem_memcpy el attached lbuf max_size = Some evs \<and>
            transfers evs = exp_transfers Xpmem_cpy (run_sizes max_size)"
    by (auto simp: run_ok_def)
  from bench_xpmem_direct_run [OF assms(1), of el]
  have b: "\<exists>evs. bench_xpmem_direct el attached max_size = Some evs \<and>
            transfers evs = exp_transfers Xpmem_dir (run_sizes max_size)"
    by (auto simp: run_ok_def)
  from bench_local_memcpy_run [of el max_size]
  have c: "\<exists>evs. bench_local_memcpy el True True max_size = Some evs \<and>
            transfers evs = exp_transfers Local_cpy (run_sizes max_size)"
    by (auto simp: run_ok_def)
  have d: "\<forall>s. reachable z s \<longrightarrow>
            (\<forall>p \<in> set (posts (log s)). fst p \<le> shm_max_size) \<and>
            (p_pc s = P_done \<longrightarrow>
               posts (log s) = exp_posts (run_sizes shm_max_size) @ [(0, iteration (ctrl s))])"
  proof (intro allI impI conjI ballI)
    fix s :: "'b shm_state" and p
    assume "reachable z s" "p \<in> set (posts (log s))"
    then show "fst p \<le> shm_max_size"
      by (intro posts_bounded [of s p] reachable_inv reachable_trace_inv)
  next
    fix s :: "'b shm_state"
    assume "reachable z s" "p_pc s = P_done"
    then show "posts (log s) = exp_posts (run_sizes shm_max_size) @ [(0, iteration (ctrl s))]"
      using reachable_trace_inv [of z s]
      by (simp add: trace_inv_def posted_so_far_def run_sizes_shm)
  qed
  have e1: "run_sizes max_size = takeWhile (\<lambda>s. s \<le> max_size) TEST_SIZES"
    by (simp add: run_sizes_def)
  have e2: "run_sizes max_size = filter (\<lambda>s. s \<le> max_size) TEST_SIZES"
    by (rule run_sizes_filter)
  show ?thesis
    by (rule conjI [OF a conjI [OF b conjI [OF c conjI [OF e1 conjI [OF e2 d]]]]])
qed

theorem size_table_driver_witness:
  "unat (65536 :: size_t) \<le> length (replicate 65536 (0 :: uint8_t)) \<and>
   run_sizes 65536 = [4096, 65536] \<and>
   (\<exists>evs. bench_xpmem_memcpy (\<lambda>si r. 0 :: int) (replicate 65536 0) (replicate 65536 0) 65536
             = Some evs \<and>
          transfers evs = exp_transfers Xpmem_cpy (run_sizes 65536)) \<and>
   reachable (0::int) (run (full_sched 1) (shm_init 0)) \<and>
   p_pc (run (full_sched (1::int)) (shm_init 0)) = P_done \<and>
   posts (log (run (full_sched (1::int)) (shm_init 0))) =
     exp_posts (run_sizes shm_max_size) @
       [(0, iteration (ctrl (run (full_sched (1::int)) (shm_init 0))))]"
proof -
  have h: "unat (65536 :: size_t) \<le> length (replicate 65536 (0 :: uint8_t))" by simp
  have rs: "run_sizes 65536 = [4096, 65536]"
    by (simp add: run_sizes_def TEST_SIZES_def)
  have r: "reachable (0::int) (run (full_sched 1) (shm_init 0))" by (rule reachable_run)
  from full_view have pc: "p_pc (run (full_sched (1::int)) (shm_init 0)) = P_done"
    by (simp add: view_def)
  note t = size_table_driver [OF h h, of "\<lambda>si r. 0 :: int" "0::int"]
  from t have a: "\<exists>evs. bench_xpmem_memcpy (\<lambda>si r. 0 :: int) (replicate 65536 0)
        (replicate 65536 0) 65536 = Some evs \<and>
        transfers evs = exp_transfers Xpmem_cpy (run_sizes 65536)"
    by (rule conjunct1)
  from t r pc have b: "posts (log (run (full_sched (1::int)) (shm_init 0))) =
     exp_posts (run_sizes shm_max_size) @
       [(0, iteration (ctrl (run (full_sched (1::int)) (shm_init 0))))]"
    by blast
  show ?thesis
    by (rule conjI [OF h conjI [OF rs conjI [OF a conjI [OF r conjI [OF pc b]]]]])
qed

section \<open>Calls of the verifier\<close>




section \<open>Bounds of print\_summary\<close>

text \<open>
  C10. \<^verbatim>\<open>print_summary\<close> reads \<^verbatim>\<open>times[0]\<close> before its loop and divides by \<open>count\<close>: on an
  empty array it reads out of bounds, with \<open>count = 0\<close> it divides by zero, and with
  \<open>count\<close> above the array's length its loop reads out of bounds. With \<open>count \<ge> 1\<close> and
  an array of at least \<open>count\<close> elements it returns its line. Every call site passes
  \<open>count = REPEAT_COUNT = 5\<close> with the five-element \<^verbatim>\<open>times\<close> array, every cell of it
  assigned: the three benchmarks of the importer and, in every reachable state, the
  parent of \<^verbatim>\<open>shm_bench\<close>.
\<close>

theorem print_summary_precondition:
  "(1 \<le> count \<and> count \<le> int (length ts) \<longrightarrow> (\<exists>line. print_summary F sz ts count = Inr line)) \<and>
   print_summary F sz [] count = Inl OutOfBounds \<and>
   (ts \<noteq> [] \<longrightarrow> print_summary F sz ts 0 = Inl DivisionByZero) \<and>
   (int (length ts) < count \<longrightarrow> print_summary F sz ts count = Inl OutOfBounds) \<and>
   (\<forall>p. good_summary p \<longrightarrow> (\<exists>line. print_summary F sz (map the (fst p)) (snd p) = Inr line)) \<and>
   (unat max_size \<le> length attached \<and> unat max_size \<le> length lbuf \<longrightarrow>
      (\<exists>evs. bench_xpmem_memcpy el attached lbuf max_size = Some evs \<and>
             length (summaries evs) = length (run_sizes max_size) \<and>
             list_all good_summary (summaries evs)) \<and>
      (\<exists>evs. bench_xpmem_direct el attached max_size = Some evs \<and>
             length (summaries evs) = length (run_sizes max_size) \<and>
             list_all good_summary (summaries evs))) \<and>
   (\<exists>evs. bench_local_memcpy el True True max_size = Some evs \<and>
          length (summaries evs) = length (run_sizes max_size) \<and>
          list_all good_summary (summaries evs)) \<and>
   (\<forall>s. reachable z s \<longrightarrow>
      list_all good_summary (summaries (log s)) \<and> length (summaries (log s)) = p_si s)"
proof -
  have g: "\<And>evs m vf b. run_ok m vf b max_size evs \<Longrightarrow>
      length (summaries evs) = length (run_sizes max_size) \<and> list_all good_summary (summaries evs)"
    by (simp add: run_ok_def list_all_iff good_summary_def)
  have p5: "\<forall>p. good_summary p \<longrightarrow> (\<exists>line. print_summary F sz (map the (fst p)) (snd p) = Inr line)"
    by (auto simp: good_summary_def REPEAT_COUNT_def intro!: print_summary_ok)
  have sh: "\<forall>s. reachable z s \<longrightarrow>
      list_all good_summary (summaries (log s)) \<and> length (summaries (log s)) = p_si s"
    using reachable_trace_inv [of z] by (simp add: trace_inv_def)
  have m: "unat max_size \<le> length attached \<and> unat max_size \<le> length lbuf \<longrightarrow>
      (\<exists>evs. bench_xpmem_memcpy el attached lbuf max_size = Some evs \<and>
             length (summaries evs) = length (run_sizes max_size) \<and>
             list_all good_summary (summaries evs)) \<and>
      (\<exists>evs. bench_xpmem_direct el attached max_size = Some evs \<and>
             length (summaries evs) = length (run_sizes max_size) \<and>
             list_all good_summary (summaries evs))"
    using bench_xpmem_memcpy_run [of max_size attached lbuf el]
      bench_xpmem_direct_run [of max_size attached el] g
    by blast
  have l: "\<exists>evs. bench_local_memcpy el True True max_size = Some evs \<and>
          length (summaries evs) = length (run_sizes max_size) \<and>
          list_all good_summary (summaries evs)"
    using bench_local_memcpy_run [of el max_size] g by blast
  have c1: "1 \<le> count \<and> count \<le> int (length ts) \<longrightarrow>
      (\<exists>line. print_summary F sz ts count = Inr line)"
    using print_summary_ok [of count ts F sz] by simp
  have c2: "print_summary F sz [] count = Inl OutOfBounds"
    by (rule print_summary_empty)
  have c3: "ts \<noteq> [] \<longrightarrow> print_summary F sz ts 0 = Inl DivisionByZero"
    using print_summary_zero [of ts F sz] by simp
  have c4: "int (length ts) < count \<longrightarrow> print_summary F sz ts count = Inl OutOfBounds"
    using print_summary_short [of ts count F sz] by simp
  show ?thesis
    by (rule conjI [OF c1 conjI [OF c2 conjI [OF c3 conjI [OF c4 conjI [OF p5
          conjI [OF m conjI [OF l sh]]]]]]])
qed

theorem print_summary_precondition_witness:
  "1 \<le> (5::int) \<and> (5::int) \<le> int (length [3, 1, 4, 1, 5 :: rat]) \<and>
   (\<exists>line. print_summary exact_fpu 4096 [3, 1, 4, 1, 5 :: rat] 5 = Inr line) \<and>
   good_summary ([Some (3::rat), Some 1, Some 4, Some 1, Some 5], 5) \<and>
   (\<exists>line. print_summary exact_fpu 4096
             (map the (fst ([Some (3::rat), Some 1, Some 4, Some 1, Some 5], 5::int)))
             (snd ([Some (3::rat), Some 1, Some 4, Some 1, Some 5], 5::int)) = Inr line) \<and>
   unat (4096 :: size_t) \<le> length (replicate 4096 (0 :: uint8_t)) \<and>
   (\<exists>evs. bench_xpmem_memcpy (\<lambda>si r. 0 :: int) (replicate 4096 0) (replicate 4096 0) 4096
             = Some evs \<and>
          length (summaries evs) = length (run_sizes 4096) \<and>
          list_all good_summary (summaries evs)) \<and>
   length (run_sizes 4096) = 1 \<and>
   reachable (0::int) (run (full_sched 1) (shm_init 0)) \<and>
   list_all good_summary (summaries (log (run (full_sched (1::int)) (shm_init 0)))) \<and>
   length (summaries (log (run (full_sched (1::int)) (shm_init 0)))) = 8"
proof -
  note t = print_summary_precondition [of 5 "[3, 1, 4, 1, 5 :: rat]" exact_fpu 4096 4096
      "replicate 4096 0" "replicate 4096 0" "\<lambda>si r. 0 :: int" "0::int"]
  have h1: "1 \<le> (5::int)" and h2: "(5::int) \<le> int (length [3, 1, 4, 1, 5 :: rat])" by simp_all
  from t h1 h2 have a: "\<exists>line. print_summary exact_fpu 4096 [3, 1, 4, 1, 5 :: rat] 5 = Inr line"
    by blast
  have g: "good_summary ([Some (3::rat), Some 1, Some 4, Some 1, Some 5], 5)"
    by (simp add: good_summary_def REPEAT_COUNT_def)
  from t g have b: "\<exists>line. print_summary exact_fpu 4096
             (map the (fst ([Some (3::rat), Some 1, Some 4, Some 1, Some 5], 5::int)))
             (snd ([Some (3::rat), Some 1, Some 4, Some 1, Some 5], 5::int)) = Inr line"
    by blast
  have h3: "unat (4096 :: size_t) \<le> length (replicate 4096 (0 :: uint8_t))" by simp
  from t h3 have c: "\<exists>evs. bench_xpmem_memcpy (\<lambda>si r. 0 :: int) (replicate 4096 0)
        (replicate 4096 0) 4096 = Some evs \<and>
          length (summaries evs) = length (run_sizes 4096) \<and>
          list_all good_summary (summaries evs)"
    by blast
  have rs: "length (run_sizes 4096) = 1"
    by (simp add: run_sizes_def TEST_SIZES_def)
  have r: "reachable (0::int) (run (full_sched 1) (shm_init 0))" by (rule reachable_run)
  from full_view have si: "p_si (run (full_sched (1::int)) (shm_init 0)) = 8"
    by (simp add: view_def)
  from t r have d: "list_all good_summary (summaries (log (run (full_sched (1::int)) (shm_init 0)))) \<and>
      length (summaries (log (run (full_sched (1::int)) (shm_init 0)))) =
        p_si (run (full_sched (1::int)) (shm_init 0))"
    by blast
  from d si have d1: "list_all good_summary (summaries (log (run (full_sched (1::int)) (shm_init 0))))"
    and d2: "length (summaries (log (run (full_sched (1::int)) (shm_init 0)))) = 8"
    by simp_all
  show ?thesis
    by (rule conjI [OF h1 conjI [OF h2 conjI [OF a conjI [OF g conjI [OF b conjI [OF h3
          conjI [OF c conjI [OF rs conjI [OF r conjI [OF d1 d2]]]]]]]]]])
qed

section \<open>A malformed descriptor\<close>

text \<open>
  C7. When the descriptor file opens but \<^verbatim>\<open>fscanf\<close> does not convert exactly three
  fields, \<^verbatim>\<open>main\<close> of the importer writes its format diagnostic and returns 1, and
  nothing else is done: no benchmark result row is printed.
\<close>

theorem malformed_descriptor_is_fatal:
  assumes "descriptor env = Some txt" "fst (fscanf_descriptor txt) \<noteq> 3"
  shows "importer_main env = Some (1, [Fatal BadFormat]) \<and>
         (\<forall>status out. importer_main env = Some (status, out) \<longrightarrow>
            status = 1 \<and> Fatal BadFormat \<in> set out \<and> \<not> list_ex is_row out)"
proof -
  obtain n vals where f: "fscanf_descriptor txt = (n, vals)" by (cases "fscanf_descriptor txt")
  with assms(2) have "n \<noteq> 3" by simp
  with assms(1) f have "importer_main env = Some (1, [Fatal BadFormat])"
    by (simp add: importer_main_def)
  then show ?thesis by simp
qed

theorem malformed_descriptor_is_fatal_witness:
  "fscanf_descriptor (''4660'' @ [CHR 0x0A] @ ''4096'' @ [CHR 0x0A]) = (2, None) \<and>
   fscanf_descriptor (''4660'' @ [CHR 0x0A] @ ''4096'' @ [CHR 0x0A] @ ''77'' @ [CHR 0x0A])
     = (3, Some (4660, 4096, 77)) \<and>
   importer_main
     \<lparr>descriptor = Some (''4660'' @ [CHR 0x0A] @ ''4096'' @ [CHR 0x0A]),
      get_ok = True, attach_ok = True, attached_mem = replicate 4096 0, local_ok = True,
      src_ok = True, dst_ok = True, fresh_byte = 0,
      el_cpy = (\<lambda>si r. 0 :: int), el_dir = (\<lambda>si r. 0), el_loc = (\<lambda>si r. 0)\<rparr>
     = Some (1, [Fatal BadFormat])"
proof -
  let ?txt = "''4660'' @ [CHR 0x0A] @ ''4096'' @ [CHR 0x0A]"
  let ?env = "\<lparr>descriptor = Some ?txt,
      get_ok = True, attach_ok = True, attached_mem = replicate 4096 0, local_ok = True,
      src_ok = True, dst_ok = True, fresh_byte = 0,
      el_cpy = (\<lambda>si r. 0 :: int), el_dir = (\<lambda>si r. 0), el_loc = (\<lambda>si r. 0)\<rparr>"
  have two: "fscanf_descriptor ?txt = (2, None)"
    by (simp add: fscanf_descriptor_def scan_integer_def isspace_def isdigit_def decimal_def)
  have three: "fscanf_descriptor (''4660'' @ [CHR 0x0A] @ ''4096'' @ [CHR 0x0A] @ ''77'' @ [CHR 0x0A])
     = (3, Some (4660, 4096, 77))"
    by (simp add: fscanf_descriptor_def scan_integer_def isspace_def isdigit_def decimal_def)
  have h1: "descriptor ?env = Some ?txt" by simp
  have h2: "fst (fscanf_descriptor ?txt) \<noteq> 3" by (simp only: two) simp
  from malformed_descriptor_is_fatal [OF h1 h2]
  have m: "importer_main ?env = Some (1, [Fatal BadFormat])" by (rule conjunct1)
  show ?thesis
    by (rule conjI [OF two conjI [OF three m]])
qed

end
